theory Spec2Isabelle
  imports Main "HOL-Library.Word"
begin

section \<open>constexpr\_map.cc: the fixed lookup table\<close>

text \<open>
  \<^verbatim>\<open>Map<KeyType, ValueType, Size>\<close> stores a \<^verbatim>\<open>std::array\<close> of pairs, modelled as
  a list of pairs in insertion order. \<^verbatim>\<open>Map::at\<close> throws
  \<^verbatim>\<open>std::range_error(std::format("{} not found in map.\n", key))\<close>; the exception is the
  value \<open>not_found key\<close>, which carries the key the message is formatted from.
\<close>

datatype 'k lookup_error = not_found 'k

text \<open>
  \<^verbatim>\<open>std::find_if(first, last, pred)\<close>: the position of the first element that satisfies
  the predicate, or \<^verbatim>\<open>last\<close>. A position is an index into the list; \<^verbatim>\<open>last\<close> is its
  length.
\<close>

fun find_if :: "'a list \<Rightarrow> ('a \<Rightarrow> bool) \<Rightarrow> nat" where
  "find_if [] p = 0"
| "find_if (x # xs) p = (if p x then 0 else Suc (find_if xs p))"

definition at :: "('k \<times> 'v) list \<Rightarrow> 'k \<Rightarrow> 'k lookup_error + 'v" where
  "at data_m key =
     (let it = find_if data_m (\<lambda>kv. fst kv = key)
      in if it = length data_m then Inl (not_found key)
         else Inr (snd (data_m ! it)))"

text \<open>The table of \<^verbatim>\<open>main\<close>.\<close>

definition data :: "(string \<times> int) list" where
  "data = [(''red'', 1), (''blue'', 2), (''green'', 3)]"

subsection \<open>Facts about \<open>find_if\<close>\<close>

lemma find_if_le: "find_if xs p \<le> length xs"
  by (induction xs) auto

lemma find_if_end: "find_if xs p = length xs \<longleftrightarrow> (\<forall>x \<in> set xs. \<not> p x)"
  by (induction xs) auto

lemma find_if_hit: "find_if xs p < length xs \<Longrightarrow> p (xs ! find_if xs p)"
  by (induction xs) (auto split: if_splits)

lemma find_if_before: "j < find_if xs p \<Longrightarrow> \<not> p (xs ! j)"
proof (induction xs arbitrary: j)
  case Nil
  then show ?case by simp
next
  case (Cons x xs)
  then show ?case by (cases j) (auto split: if_splits)
qed

lemma find_if_first:
  assumes "i < length xs" and "p (xs ! i)" and "\<forall>j<i. \<not> p (xs ! j)"
  shows "find_if xs p = i"
proof -
  have "\<not> i < find_if xs p"
    using assms(2) find_if_before by blast
  moreover have "\<not> find_if xs p < i"
  proof
    assume lt: "find_if xs p < i"
    then have "find_if xs p < length xs" using assms(1) by simp
    then have "p (xs ! find_if xs p)" by (rule find_if_hit)
    with lt assms(3) show False by blast
  qed
  ultimately show ?thesis by simp
qed

text \<open>
  C1. \<open>at\<close> scans the entries in insertion order: when entry \<open>i\<close> is the first whose key
  equals the given key, \<open>at\<close> returns the value of entry \<open>i\<close>; when no entry has the
  key, it fails with the not-found error that carries the key. For the table
  red/blue/green of \<^verbatim>\<open>main\<close>: red gives 1, blue gives 2, purple is a lookup miss.
\<close>

theorem at_first_match_or_not_found:
  "(\<forall>i. i < length d \<and> fst (d ! i) = k \<and> (\<forall>j<i. fst (d ! j) \<noteq> k)
        \<longrightarrow> at d k = Inr (snd (d ! i)))
   \<and> (k \<notin> fst ` set d \<longrightarrow> at d k = Inl (not_found k))
   \<and> at data ''red'' = Inr 1
   \<and> at data ''blue'' = Inr 2
   \<and> at data ''purple'' = Inl (not_found ''purple'')"
proof (intro conjI allI impI)
  fix i
  assume h: "i < length d \<and> fst (d ! i) = k \<and> (\<forall>j<i. fst (d ! j) \<noteq> k)"
  then have "find_if d (\<lambda>kv. fst kv = k) = i"
    by (intro find_if_first) auto
  with h show "at d k = Inr (snd (d ! i))"
    by (simp add: at_def)
next
  assume "k \<notin> fst ` set d"
  then have "find_if d (\<lambda>kv. fst kv = k) = length d"
    by (auto simp: find_if_end)
  then show "at d k = Inl (not_found k)"
    by (simp add: at_def)
qed (simp_all add: at_def data_def)

theorem at_first_match_or_not_found_witness:
  "at [(1::nat, 10::nat), (2, 20), (1, 30)] 1 = Inr 10
   \<and> at [(1::nat, 10::nat), (2, 20), (1, 30)] 2 = Inr 20
   \<and> at [(1::nat, 10::nat), (2, 20), (1, 30)] 3 = Inl (not_found 3)"
proof -
  let ?d = "[(1::nat, 10::nat), (2, 20), (1, 30)]"
  have a: "at ?d 1 = Inr (snd (?d ! 0))"
    by (rule at_first_match_or_not_found [of ?d 1, THEN conjunct1, THEN spec, THEN mp]) simp
  have b: "at ?d 2 = Inr (snd (?d ! 1))"
    by (rule at_first_match_or_not_found [of ?d 2, THEN conjunct1, THEN spec, THEN mp]) simp
  have c: "at ?d 3 = Inl (not_found 3)"
    by (rule at_first_match_or_not_found [of ?d 3, THEN conjunct2, THEN conjunct1, THEN mp]) simp
  from a b c show ?thesis by simp
qed

section \<open>numeric.cc: reductions and prefix sums\<close>

text \<open>
  The elements are C++ \<^verbatim>\<open>int\<close>s. The values the program computes stay far inside the
  32-bit range, so they are modelled as integers; the general statements below are over
  any element type and operation. C++ integer division truncates towards zero
  (\<open>c_div\<close>), and \<^verbatim>\<open>%\<close> is its remainder (\<open>c_rem\<close>).
\<close>

definition c_div :: "int \<Rightarrow> int \<Rightarrow> int" where
  "c_div a b = sgn a * sgn b * (\<bar>a\<bar> div \<bar>b\<bar>)"

definition c_rem :: "int \<Rightarrow> int \<Rightarrow> int" where
  "c_rem a b = a - b * c_div a b"

text \<open>\<^verbatim>\<open>std::iota(first, last, value)\<close> on a range of \<open>n\<close> elements.\<close>

fun iota :: "nat \<Rightarrow> int \<Rightarrow> int list" where
  "iota 0 v = []"
| "iota (Suc n) v = v # iota n (v + 1)"

text \<open>
  The standard library is not part of the repository; its algorithms are modelled by
  their sequential implementations in GNU libstdc++ (\<^verbatim>\<open><numeric>\<close>), the library the
  examples are written against. \<^verbatim>\<open>std::accumulate\<close> is the loop
  \<^verbatim>\<open>for (; first != last; ++first) init = op(init, *first);\<close>.
\<close>

fun accumulate :: "'a list \<Rightarrow> 'b \<Rightarrow> ('b \<Rightarrow> 'a \<Rightarrow> 'b) \<Rightarrow> 'b" where
  "accumulate [] init op = init"
| "accumulate (x # xs) init op = accumulate xs (op init x) op"

text \<open>
  \<^verbatim>\<open>std::reduce(first, last, init, op)\<close> without an execution policy, on random-access
  iterators (those of \<^verbatim>\<open>std::vector\<close>): while at least four elements remain it
  combines them as \<^verbatim>\<open>init = op(init, op(op(first[0], first[1]), op(first[2], first[3])))\<close>,
  and the rest runs through the loop of \<^verbatim>\<open>accumulate\<close>. The C++ standard would
  also let \<^verbatim>\<open>std::reduce\<close> reorder the operands; this implementation regroups them
  and keeps their order.
\<close>

fun reduce :: "'a list \<Rightarrow> 'a \<Rightarrow> ('a \<Rightarrow> 'a \<Rightarrow> 'a) \<Rightarrow> 'a" where
  "reduce (x0 # x1 # x2 # x3 # xs) init op =
     (let v1 = op x0 x1; v2 = op x2 x3; v3 = op v1 v2
      in reduce xs (op init v3) op)"
| "reduce xs init op = accumulate xs init op"

text \<open>
  The lambda \<^verbatim>\<open>sum_gauss\<close> of \<^verbatim>\<open>main\<close>:
  \<^verbatim>\<open>(last - first + 1) / step * (last + first) / 2\<close>, evaluated left to right. A zero
  \<^verbatim>\<open>step\<close> divides by zero, which has no result.
\<close>

definition sum_gauss :: "int \<Rightarrow> int \<Rightarrow> int \<Rightarrow> int option" where
  "sum_gauss first last' step =
     (if step = 0 then None
      else Some (c_div (c_div (last' - first + 1) step * (last' + first)) 2))"

text \<open>The vector \<^verbatim>\<open>v1\<close> of \<^verbatim>\<open>main\<close>: five elements, filled by \<^verbatim>\<open>std::iota\<close> from 1.\<close>

definition v1 :: "int list" where "v1 = iota 5 1"

text \<open>
  \<^verbatim>\<open>std::inclusive_scan(first, last, result, op)\<close>: the first element is written as it
  is and becomes the running value; the overload with an initial value then writes
  \<^verbatim>\<open>*result++ = init = op(init, *first)\<close> for each further element. The list returned
  is what the call has written to the output range.
\<close>

fun inclusive_scan_init :: "'a list \<Rightarrow> ('a \<Rightarrow> 'a \<Rightarrow> 'a) \<Rightarrow> 'a \<Rightarrow> 'a list" where
  "inclusive_scan_init [] op init = []"
| "inclusive_scan_init (x # xs) op init =
     (let init' = op init x in init' # inclusive_scan_init xs op init')"

fun inclusive_scan :: "'a list \<Rightarrow> ('a \<Rightarrow> 'a \<Rightarrow> 'a) \<Rightarrow> 'a list" where
  "inclusive_scan [] op = []"
| "inclusive_scan (x # xs) op = x # inclusive_scan_init xs op x"

subsection \<open>Facts about the reductions\<close>

lemma accumulate_foldl: "accumulate xs init op = foldl op init xs"
  by (induction xs arbitrary: init) auto

lemma reduce_foldl:
  assumes "\<And>a b c. op (op a b) c = op a (op b c)"
  shows "reduce xs init op = foldl op init xs"
  using assms
  by (induction xs init op rule: reduce.induct) (simp_all add: accumulate_foldl)

lemma v1_val: "v1 = [1,2,3,4,5]"
  by (simp add: v1_def numeral_eq_Suc)

lemma inclusive_scan_init_length: "length (inclusive_scan_init xs op a) = length xs"
  by (induction xs arbitrary: a) (auto simp: Let_def)

lemma inclusive_scan_init_nth:
  "i < length xs \<Longrightarrow> inclusive_scan_init xs op a ! i = foldl op a (take (Suc i) xs)"
proof (induction xs arbitrary: a i)
  case Nil
  then show ?case by simp
next
  case (Cons x xs)
  then show ?case by (cases i) (auto simp: Let_def)
qed

lemma inclusive_scan_length: "length (inclusive_scan xs op) = length xs"
  by (cases xs) (auto simp: inclusive_scan_init_length)

lemma inclusive_scan_nth:
  "i < length xs \<Longrightarrow> inclusive_scan xs op ! i = foldl op (hd xs) (tl (take (Suc i) xs))"
  by (cases xs; cases i) (auto simp: inclusive_scan_init_nth)

lemma inclusive_scan_last:
  assumes "xs \<noteq> []"
  shows "last (inclusive_scan xs op) = foldl op (hd xs) (tl xs)"
proof -
  have "inclusive_scan xs op \<noteq> []"
    using assms inclusive_scan_length [of xs op] by auto
  then have "last (inclusive_scan xs op) = inclusive_scan xs op ! (length xs - 1)"
    by (simp add: last_conv_nth inclusive_scan_length)
  also have "\<dots> = foldl op (hd xs) (tl (take (Suc (length xs - 1)) xs))"
    using assms by (intro inclusive_scan_nth) simp
  finally show ?thesis using assms by simp
qed

text \<open>
  C7. For every sequence and every associative combining operation, \<open>reduce\<close> gives
  the result of the sequential left fold (\<open>accumulate\<close>, and HOL's \<open>foldl\<close>) over the
  same sequence, operation and initial value. For \<open>v1 = [1,2,3,4,5]\<close> with addition and
  0 both give 15, which is also the value of the closed form \<open>sum_gauss\<close> at the first
  and last element with step 1 (the assertions of \<^verbatim>\<open>main\<close>).
\<close>

theorem reduce_eq_left_fold:
  "((\<forall>a b c. op (op a b) c = op a (op b c)) \<longrightarrow>
       reduce xs init op = accumulate xs init op \<and> reduce xs init op = foldl op init xs)
   \<and> v1 = [1, 2, 3, 4, 5]
   \<and> accumulate v1 0 (+) = 15
   \<and> reduce v1 0 (+) = 15
   \<and> sum_gauss (v1 ! 0) (v1 ! (length v1 - 1)) 1 = Some 15"
proof (intro conjI impI)
  assume "\<forall>a b c. op (op a b) c = op a (op b c)"
  then show "reduce xs init op = foldl op init xs"
    by (simp add: reduce_foldl)
  then show "reduce xs init op = accumulate xs init op"
    by (simp add: accumulate_foldl)
next
  show "sum_gauss (v1 ! 0) (v1 ! (length v1 - 1)) 1 = Some 15"
    by (simp add: v1_val sum_gauss_def c_div_def)
qed (simp_all add: v1_val)

theorem reduce_eq_left_fold_witness:
  "(\<forall>a b c :: int. a * b * c = a * (b * c))
   \<and> reduce [2, 3, 4, 5, 6, 7 :: int] 1 (*) = accumulate [2, 3, 4, 5, 6, 7] 1 (*)
   \<and> reduce [2, 3, 4, 5, 6, 7 :: int] 1 (*) = 5040"
proof -
  have h: "\<forall>a b c :: int. a * b * c = a * (b * c)" by simp
  have "reduce [2, 3, 4, 5, 6, 7 :: int] 1 (*) = accumulate [2, 3, 4, 5, 6, 7] 1 (*)"
    using reduce_eq_left_fold [of "(*)" "[2, 3, 4, 5, 6, 7 :: int]" 1] h by blast
  with h show ?thesis by simp
qed

text \<open>
  C8. \<open>inclusive_scan\<close> writes as many elements as it reads, and position \<open>i\<close> of the
  output is the combination, from the left, of the input elements 0 to \<open>i\<close>. Its last
  element is the value of \<open>reduce\<close> over the whole sequence (for an associative
  operation with a left identity as initial value). For \<open>v1 = [1,2,3,4,5]\<close> and addition
  the output is \<open>[1,3,6,10,15]\<close>.
\<close>

theorem inclusive_scan_cumulative:
  "length (inclusive_scan xs op) = length xs
   \<and> (\<forall>i<length xs. inclusive_scan xs op ! i = foldl op (hd xs) (tl (take (Suc i) xs)))
   \<and> (xs \<noteq> [] \<and> (\<forall>a b c. op (op a b) c = op a (op b c)) \<and> (\<forall>a. op e a = a)
        \<longrightarrow> last (inclusive_scan xs op) = reduce xs e op)
   \<and> v1 = [1, 2, 3, 4, 5]
   \<and> inclusive_scan v1 (+) = [1, 3, 6, 10, 15]
   \<and> last (inclusive_scan v1 (+)) = reduce v1 0 (+)"
proof (intro conjI impI allI)
  assume h: "xs \<noteq> [] \<and> (\<forall>a b c. op (op a b) c = op a (op b c)) \<and> (\<forall>a. op e a = a)"
  then obtain y ys where xs: "xs = y # ys" by (cases xs) auto
  have "reduce xs e op = foldl op e xs"
    using h by (simp add: reduce_foldl)
  also have "\<dots> = foldl op (hd xs) (tl xs)"
    using h by (simp add: xs)
  finally show "last (inclusive_scan xs op) = reduce xs e op"
    using h by (simp add: inclusive_scan_last)
qed (simp_all add: inclusive_scan_length inclusive_scan_nth v1_val)

theorem inclusive_scan_cumulative_witness:
  "inclusive_scan [2, 3, 4 :: int] (*) ! 2 = 2 * 3 * 4
   \<and> last (inclusive_scan [2, 3, 4 :: int] (*)) = reduce [2, 3, 4] 1 (*)"
proof -
  let ?xs = "[2, 3, 4 :: int]"
  note t = inclusive_scan_cumulative [of ?xs "(*)" 1]
  have a: "inclusive_scan ?xs (*) ! 2 = foldl (*) (hd ?xs) (tl (take (Suc 2) ?xs))"
    by (rule t [THEN conjunct2, THEN conjunct1, THEN spec, THEN mp]) simp
  have b: "last (inclusive_scan ?xs (*)) = reduce ?xs 1 (*)"
    by (rule t [THEN conjunct2, THEN conjunct2, THEN conjunct1, THEN mp]) simp
  from a b show ?thesis by simp
qed

section \<open>algorithm.cc: removing consecutive duplicates\<close>

text \<open>
  \<^verbatim>\<open>std::unique(first, last)\<close> works in place: \<^verbatim>\<open>result\<close> is the position of the last
  element kept, \<^verbatim>\<open>first\<close> the position examined.
  \<^verbatim>\<open>
  if (first == last) return last;
  ForwardIt result = first;
  while (++first != last)
    if (!(*result == *first) && ++result != first)
      *result = std::move(*first);
  return ++result;
  \<close>
  This is the loop in its reference form; the library's own version first skips the
  prefix that has no adjacent duplicates and then makes the same assignments. The model
  returns the vector after the call and the position returned. Positions are indices;
  \<open>first\<close> never passes the end, so the test \<^verbatim>\<open>++first != last\<close> is the comparison
  \<open>Suc first < length v\<close>.
\<close>

function unique_loop :: "'a list \<Rightarrow> nat \<Rightarrow> nat \<Rightarrow> 'a list \<times> nat" where
  "unique_loop v result first =
     (if Suc first < length v then
        (if v ! result \<noteq> v ! Suc first then
           (if Suc result \<noteq> Suc first
            then unique_loop (v[Suc result := v ! Suc first]) (Suc result) (Suc first)
            else unique_loop v (Suc result) (Suc first))
         else unique_loop v result (Suc first))
      else (v, Suc result))"
  by pat_completeness auto
termination
  by (relation "measure (\<lambda>(v, result, first). length v - first)") auto

definition unique :: "'a list \<Rightarrow> 'a list \<times> nat" where
  "unique v = (if v = [] then (v, 0) else unique_loop v 0 0)"

text \<open>\<^verbatim>\<open>v.erase(first, last)\<close> removes the elements of the positions from \<open>first\<close> up to \<open>last\<close>.\<close>

definition erase :: "'a list \<Rightarrow> nat \<Rightarrow> nat \<Rightarrow> 'a list" where
  "erase v first last' = take first v @ drop last' v"

text \<open>The statement \<^verbatim>\<open>v1.erase(std::unique(v1.begin(), v1.end()), v1.end())\<close>.\<close>

definition unique_erase :: "'a list \<Rightarrow> 'a list" where
  "unique_erase v = (case unique v of (v', it) \<Rightarrow> erase v' it (length v'))"

text \<open>
  The lambda \<^verbatim>\<open>is_even\<close> returns \<^verbatim>\<open>e % 2\<close>, which \<^verbatim>\<open>count_if\<close> reads as a truth
  value: it holds of the elements with a non-zero remainder.
\<close>

definition is_even :: "int \<Rightarrow> bool" where
  "is_even e = (c_rem e 2 \<noteq> 0)"

fun count_if :: "'a list \<Rightarrow> ('a \<Rightarrow> bool) \<Rightarrow> nat" where
  "count_if [] p = 0"
| "count_if (x # xs) p = (if p x then Suc (count_if xs p) else count_if xs p)"

text \<open>
  The loop of \<^verbatim>\<open>unique()\<close> that fills \<^verbatim>\<open>v1\<close>: \<^verbatim>\<open>i\<close> is a \<^verbatim>\<open>size_t\<close>, and
  \<^verbatim>\<open>push_back(i)\<close> converts it to \<^verbatim>\<open>int\<close>, keeping the low 32 bits as a signed value.
  The program runs it with \<open>n = 20\<close>.
\<close>

definition size_t_to_int :: "nat \<Rightarrow> int" where
  "size_t_to_int i = signed_take_bit 31 (int i)"

function push_back_twice :: "nat \<Rightarrow> nat \<Rightarrow> int list \<Rightarrow> int list" where
  "push_back_twice i n v =
     (if i < n then push_back_twice (Suc i) n ((v @ [size_t_to_int i]) @ [size_t_to_int i])
      else v)"
  by pat_completeness auto
termination
  by (relation "measure (\<lambda>(i, n, v). n - i)") auto

declare unique_loop.simps [simp del] push_back_twice.simps [simp del]

subsection \<open>Facts about \<open>unique\<close>\<close>

lemma unique_loop_take:
  "result < Suc first \<Longrightarrow> Suc first \<le> length v \<Longrightarrow>
   take (snd (unique_loop v result first)) (fst (unique_loop v result first))
     = take result v @ remdups_adj (v ! result # drop (Suc first) v)"
proof (induction v result first rule: unique_loop.induct)
  case (1 v result first)
  show ?case
  proof (cases "Suc first < length v")
    case False
    with "1.prems" have "drop (Suc first) v = []" by simp
    with False "1.prems" show ?thesis
      by (subst (1 2) unique_loop.simps) (simp add: take_Suc_conv_app_nth)
  next
    case lt: True
    have dr: "drop (Suc first) v = v ! Suc first # drop (Suc (Suc first)) v"
      using lt by (simp add: Cons_nth_drop_Suc)
    show ?thesis
    proof (cases "v ! result = v ! Suc first")
      case True
      have "take (snd (unique_loop v result first)) (fst (unique_loop v result first))
          = take (snd (unique_loop v result (Suc first))) (fst (unique_loop v result (Suc first)))"
        using lt True by (subst (1 2) unique_loop.simps) simp
      also have "\<dots> = take result v @ remdups_adj (v ! result # drop (Suc (Suc first)) v)"
        using "1.IH"(3) [OF lt] True "1.prems" lt by simp
      finally show ?thesis using True dr by simp
    next
      case ne: False
      show ?thesis
      proof (cases "result = first")
        case True
        have "take (snd (unique_loop v result first)) (fst (unique_loop v result first))
          = take (snd (unique_loop v (Suc result) (Suc first))) (fst (unique_loop v (Suc result) (Suc first)))"
          using lt ne True by (subst (1 2) unique_loop.simps) simp
        also have "\<dots> = take (Suc result) v @ remdups_adj (v ! Suc result # drop (Suc (Suc first)) v)"
          using "1.IH"(2) [OF lt ne] True "1.prems" lt by simp
        finally show ?thesis using True ne dr lt
          by (simp add: take_Suc_conv_app_nth)
      next
        case False
        let ?v = "v[Suc result := v ! Suc first]"
        have "take (snd (unique_loop v result first)) (fst (unique_loop v result first))
          = take (snd (unique_loop ?v (Suc result) (Suc first))) (fst (unique_loop ?v (Suc result) (Suc first)))"
          using lt ne False by (subst (1 2) unique_loop.simps) simp
        also have "\<dots> = take (Suc result) ?v @ remdups_adj (?v ! Suc result # drop (Suc (Suc first)) ?v)"
          using "1.IH"(1) [OF lt ne] False "1.prems" lt by simp
        also have "\<dots> = take result v @ v ! result # remdups_adj (v ! Suc first # drop (Suc (Suc first)) v)"
          using False "1.prems" lt by (simp add: take_Suc_conv_app_nth)
        finally show ?thesis using ne dr by simp
      qed
    qed
  qed
qed

lemma unique_erase_remdups_adj: "unique_erase v = remdups_adj v"
proof (cases v)
  case Nil
  then show ?thesis by (simp add: unique_erase_def unique_def erase_def)
next
  case (Cons x xs)
  then have "take (snd (unique_loop v 0 0)) (fst (unique_loop v 0 0)) = remdups_adj v"
    using unique_loop_take [of 0 0 v] by (simp add: drop_Suc)
  then show ?thesis
    using Cons by (auto simp: unique_erase_def unique_def erase_def split: prod.splits)
qed

lemma push_back_twice_concat:
  "push_back_twice i n v = v @ concat (map (\<lambda>k. [size_t_to_int k, size_t_to_int k]) [i..<n])"
proof (induction i n v rule: push_back_twice.induct)
  case (1 i n v)
  show ?case
  proof (cases "i < n")
    case True
    then show ?thesis
      using "1.IH" by (subst push_back_twice.simps) (simp add: upt_conv_Cons)
  next
    case False
    then show ?thesis by (subst push_back_twice.simps) simp
  qed
qed

lemma size_t_to_int_small: "k < 2 ^ 31 \<Longrightarrow> size_t_to_int k = int k"
proof -
  assume "k < 2 ^ 31"
  then have "int k < 2 ^ 31" by (metis of_nat_less_iff of_nat_numeral of_nat_power)
  then show ?thesis
    unfolding size_t_to_int_def by (intro signed_take_bit_int_eq_self) auto
qed

lemma v1_doubled:
  assumes "n \<le> 2 ^ 31"
  shows "push_back_twice 0 n [] = concat (map (\<lambda>k. [int k, int k]) [0..<n])"
proof -
  have "\<And>k. k \<in> set [0..<n] \<Longrightarrow> [size_t_to_int k, size_t_to_int k] = [int k, int k]"
    using assms by (simp add: size_t_to_int_small)
  then have "map (\<lambda>k. [size_t_to_int k, size_t_to_int k]) [0..<n] = map (\<lambda>k. [int k, int k]) [0..<n]"
    by (rule map_cong [OF refl])
  then show ?thesis unfolding push_back_twice_concat by (simp only: append_Nil)
qed

lemma remdups_adj_doubled:
  "distinct (map f ks) \<Longrightarrow> remdups_adj (concat (map (\<lambda>k. [f k, f k]) ks)) = map f ks"
proof (induction ks)
  case Nil
  then show ?case by simp
next
  case (Cons k ks)
  then show ?case by (cases ks) auto
qed

lemma count_if_filter: "count_if xs p = length (filter p xs)"
  by (induction xs) auto

lemma count_if_doubled:
  "count_if (concat (map (\<lambda>k. [f k, f k]) ks)) p = 2 * count_if (map f ks) p"
  by (induction ks) auto

lemma is_even_odd: "is_even e \<longleftrightarrow> odd e"
proof -
  have "c_rem e 2 \<noteq> 0 \<longleftrightarrow> odd e"
    unfolding c_rem_def c_div_def by (cases "0 < e"; cases "e = 0"; simp add: sgn_if; presburger)
  then show ?thesis by (simp add: is_even_def)
qed


lemma unique_loop_bound:
  "result < Suc first \<Longrightarrow> Suc first \<le> length v \<Longrightarrow>
   snd (unique_loop v result first) \<le> length v
   \<and> length (fst (unique_loop v result first)) = length v"
proof (induction v result first rule: unique_loop.induct)
  case (1 v result first)
  show ?case
  proof (cases "Suc first < length v")
    case False
    with "1.prems" show ?thesis
      by (subst (1 2) unique_loop.simps) simp
  next
    case True
    with "1.IH" "1.prems" show ?thesis
      by (subst (1 2) unique_loop.simps) auto
  qed
qed

lemma unique_boundary: "snd (unique v) = length (remdups_adj v)"
proof (cases v)
  case Nil
  then show ?thesis by (simp add: unique_def)
next
  case (Cons x xs)
  have b: "snd (unique_loop v 0 0) \<le> length (fst (unique_loop v 0 0))"
    using Cons unique_loop_bound [of 0 0 v] by simp
  have "take (snd (unique_loop v 0 0)) (fst (unique_loop v 0 0)) = remdups_adj v"
    using Cons unique_loop_take [of 0 0 v] by (simp add: drop_Suc)
  then have "length (remdups_adj v) = min (length (fst (unique_loop v 0 0))) (snd (unique_loop v 0 0))"
    by (metis length_take)
  with b Cons show ?thesis by (simp add: unique_def)
qed

text \<open>
  C9. Truncating at the position \<open>unique\<close> returns removes the consecutive duplicates
  and nothing else (\<open>remdups_adj\<close>), and the position is the length of what is kept.
  On the sequence \<open>[0,0,1,1,...,n-1,n-1]\<close> that \<^verbatim>\<open>unique()\<close> builds (for \<open>n\<close> within
  the range of \<^verbatim>\<open>int\<close>), the result is the strictly increasing sequence
  \<open>[0,1,...,n-1]\<close>, and each parity class (the elements \<open>is_even\<close> holds of, and the
  others) had twice as many elements before as it has after.
\<close>

theorem unique_collapses_doubled:
  "unique_erase v = remdups_adj v
   \<and> snd (unique v) = length (remdups_adj v)
   \<and> (n \<le> 2 ^ 31 \<longrightarrow>
         push_back_twice 0 n [] = concat (map (\<lambda>k. [int k, int k]) [0..<n])
       \<and> unique_erase (push_back_twice 0 n []) = map int [0..<n]
       \<and> sorted_wrt (<) (unique_erase (push_back_twice 0 n []))
       \<and> count_if (push_back_twice 0 n []) is_even
           = 2 * count_if (unique_erase (push_back_twice 0 n [])) is_even
       \<and> count_if (push_back_twice 0 n []) (\<lambda>e. \<not> is_even e)
           = 2 * count_if (unique_erase (push_back_twice 0 n [])) (\<lambda>e. \<not> is_even e))"
proof (intro conjI impI)
  assume n: "n \<le> 2 ^ 31"
  let ?v1 = "push_back_twice 0 n []"
  show d: "?v1 = concat (map (\<lambda>k. [int k, int k]) [0..<n])"
    using n by (rule v1_doubled)
  have "distinct (map int [0..<n])"
    by (simp add: distinct_map)
  then show u: "unique_erase ?v1 = map int [0..<n]"
    by (simp only: unique_erase_remdups_adj d remdups_adj_doubled)
  show "sorted_wrt (<) (unique_erase ?v1)"
    unfolding u by (simp add: sorted_wrt_map)
  show "count_if ?v1 is_even = 2 * count_if (unique_erase ?v1) is_even"
    unfolding u unfolding d by (rule count_if_doubled)
  show "count_if ?v1 (\<lambda>e. \<not> is_even e) = 2 * count_if (unique_erase ?v1) (\<lambda>e. \<not> is_even e)"
    unfolding u unfolding d by (rule count_if_doubled)
qed (simp_all add: unique_erase_remdups_adj unique_boundary)

theorem unique_collapses_doubled_witness:
  "unique_erase [1, 1, 2, 1 :: int] = [1, 2, 1]
   \<and> (20 :: nat) \<le> 2 ^ 31
   \<and> unique_erase (push_back_twice 0 20 []) = map int [0..<20]
   \<and> count_if (push_back_twice 0 20 []) is_even = 20
   \<and> count_if (unique_erase (push_back_twice 0 20 [])) is_even = 10"
proof -
  have h: "(20 :: nat) \<le> 2 ^ 31" by simp
  note t = unique_collapses_doubled [of _ 20, THEN conjunct2, THEN conjunct2, THEN mp, OF h]
  have a: "unique_erase [1, 1, 2, 1 :: int] = [1, 2, 1]"
    using unique_collapses_doubled [of "[1, 1, 2, 1 :: int]" 20] by simp
  have b: "unique_erase (push_back_twice 0 20 []) = map int [0..<20]"
    using t by blast
  have c: "count_if (push_back_twice 0 20 []) is_even
      = 2 * count_if (unique_erase (push_back_twice 0 20 [])) is_even"
    using t by blast
  have d: "count_if (map int [0..<20]) is_even = 10"
    by (simp add: upt_rec [of _ "numeral _"] upt_rec [of _ "Suc _"] is_even_odd)
  from a b c d h show ?thesis by simp
qed

section \<open>iterators.cc: the owning sequence container and its cursor\<close>

subsection \<open>Pointers and the heap\<close>

text \<open>
  \<^verbatim>\<open>DynamicArray<T>\<close> owns a buffer obtained with \<^verbatim>\<open>new T[size]\<close> and hands out raw
  pointers into it, so the model has an explicit heap. A pointer is a block number and
  an element offset; block 0 is never allocated and \<open>Ptr 0 0\<close> is \<^verbatim>\<open>nullptr\<close>.
  Pointer arithmetic moves the offset; only an access decides whether the position
  is inside a live block.
\<close>

datatype ptr = Ptr (block: nat) (off: int)

definition nullptr :: ptr where
  "nullptr = Ptr 0 0"

definition ptr_add :: "ptr \<Rightarrow> int \<Rightarrow> ptr" where
  "ptr_add p d = Ptr (block p) (off p + d)"

definition ptr_diff :: "ptr \<Rightarrow> ptr \<Rightarrow> int" where
  "ptr_diff p q = off p - off q"

text \<open>
  A block is the element cells of a live allocation, or has been released. A cell holds
  a value, or \<open>None\<close> while it is indeterminate (the elements of \<^verbatim>\<open>new T[n]\<close> without an
  initializer, for the scalar element types the program uses). Block \<open>b > 0\<close> is entry
  \<open>b - 1\<close> of the heap; a released block keeps its number, so that a pointer to it stays
  recognisable as dangling.
\<close>

datatype 'a block = Live "'a option list" | Freed

type_synonym 'a heap = "'a block list"

text \<open>
  What the operations can raise. \<^verbatim>\<open>std::range_error\<close> of \<^verbatim>\<open>operator[]\<close> carries the
  index and the size its message is formatted from. A use of the heap that C++ leaves
  undefined (releasing a block twice, releasing what is not the start of a live block,
  reading or writing outside a live block, subtracting pointers into different blocks)
  is an error value of its own, so that it is never mistaken for a result.
\<close>

datatype undefined_behaviour = double_free | invalid_free | invalid_access | unrelated_pointers

datatype error =
    range_error "32 word" "64 word"
  | bad_array_new_length
  | undefined undefined_behaviour

definition and_then :: "'e + 'a \<Rightarrow> ('a \<Rightarrow> 'e + 'b) \<Rightarrow> 'e + 'b" where
  "and_then m f = (case m of Inl e \<Rightarrow> Inl e | Inr x \<Rightarrow> f x)"

text \<open>
  \<^verbatim>\<open>new T[n]\<close> throws \<^verbatim>\<open>std::bad_array_new_length\<close> when the array would exceed the
  largest object of the implementation; with 64-bit \<^verbatim>\<open>size_t\<close> no array has more than
  \<^verbatim>\<open>PTRDIFF_MAX\<close> elements. Memory is otherwise unbounded. The third argument is the
  initial content of every cell: \<open>Some 0\<close> for \<^verbatim>\<open>new T[n]{}\<close>, \<open>None\<close> for
  \<^verbatim>\<open>new T[n]\<close>.
\<close>

definition PTRDIFF_MAX :: nat where
  "PTRDIFF_MAX = 2 ^ 63 - 1"

definition lookup_block :: "'a heap \<Rightarrow> nat \<Rightarrow> 'a block option" where
  "lookup_block h b = (if 0 < b \<and> b \<le> length h then Some (h ! (b - 1)) else None)"

definition new_array :: "'a heap \<Rightarrow> nat \<Rightarrow> 'a option \<Rightarrow> error + 'a heap \<times> ptr" where
  "new_array h n init =
     (if PTRDIFF_MAX < n then Inl bad_array_new_length
      else Inr (h @ [Live (replicate n init)], Ptr (Suc (length h)) 0))"

text \<open>
  \<^verbatim>\<open>delete[] p\<close>: nothing for a null pointer, otherwise \<open>p\<close> must be the start of a live
  block, which is released. The move assignment operator writes \<^verbatim>\<open>delete p\<close> for a
  buffer that came from \<^verbatim>\<open>new T[n]\<close>; for the trivially destructible elements of the
  program this releases the block as \<^verbatim>\<open>delete[]\<close> does, and it is modelled so.
\<close>

definition delete_array :: "'a heap \<Rightarrow> ptr \<Rightarrow> error + 'a heap" where
  "delete_array h p =
     (if p = nullptr then Inr h
      else if off p \<noteq> 0 then Inl (undefined invalid_free)
      else case lookup_block h (block p) of
             None \<Rightarrow> Inl (undefined invalid_free)
           | Some Freed \<Rightarrow> Inl (undefined double_free)
           | Some (Live cs) \<Rightarrow> Inr (h[block p - 1 := Freed]))"

definition delete_scalar :: "'a heap \<Rightarrow> ptr \<Rightarrow> error + 'a heap" where
  "delete_scalar h p = delete_array h p"

definition load :: "'a heap \<Rightarrow> ptr \<Rightarrow> error + 'a option" where
  "load h p =
     (case lookup_block h (block p) of
        Some (Live cs) \<Rightarrow>
          if 0 \<le> off p \<and> nat (off p) < length cs then Inr (cs ! nat (off p))
          else Inl (undefined invalid_access)
      | _ \<Rightarrow> Inl (undefined invalid_access))"

definition store :: "'a heap \<Rightarrow> ptr \<Rightarrow> 'a option \<Rightarrow> error + 'a heap" where
  "store h p v =
     (case lookup_block h (block p) of
        Some (Live cs) \<Rightarrow>
          if 0 \<le> off p \<and> nat (off p) < length cs
          then Inr (h[block p - 1 := Live (cs[nat (off p) := v])])
          else Inl (undefined invalid_access)
      | _ \<Rightarrow> Inl (undefined invalid_access))"

text \<open>
  \<^verbatim>\<open>std::copy(first, last, d_first)\<close>, \<^verbatim>\<open>std::fill(first, last, value)\<close> and the copy out
  of an initializer list are the loops \<^verbatim>\<open>*d_first++ = *first++\<close> and
  \<^verbatim>\<open>*first++ = value\<close> over \<open>last - first\<close> elements. They read and write the heap cell
  by cell, so source and destination may be the same block. An indeterminate value is
  copied as it is. In every call of the class \<open>last\<close> is \<open>first + size_\<close>, so the number
  of steps is the offset difference.
\<close>

fun copy_loop :: "'a heap \<Rightarrow> ptr \<Rightarrow> nat \<Rightarrow> ptr \<Rightarrow> error + 'a heap" where
  "copy_loop h first 0 d_first = Inr h"
| "copy_loop h first (Suc n) d_first =
     and_then (load h first) (\<lambda>v.
     and_then (store h d_first v) (\<lambda>h'.
     copy_loop h' (ptr_add first 1) n (ptr_add d_first 1)))"

definition std_copy :: "'a heap \<Rightarrow> ptr \<Rightarrow> ptr \<Rightarrow> ptr \<Rightarrow> error + 'a heap" where
  "std_copy h first last' d_first = copy_loop h first (nat (ptr_diff last' first)) d_first"

fun fill_loop :: "'a heap \<Rightarrow> ptr \<Rightarrow> nat \<Rightarrow> 'a \<Rightarrow> error + 'a heap" where
  "fill_loop h first 0 v = Inr h"
| "fill_loop h first (Suc n) v =
     and_then (store h first (Some v)) (\<lambda>h'. fill_loop h' (ptr_add first 1) n v)"

definition std_fill :: "'a heap \<Rightarrow> ptr \<Rightarrow> ptr \<Rightarrow> 'a \<Rightarrow> error + 'a heap" where
  "std_fill h first last' v = fill_loop h first (nat (ptr_diff last' first)) v"

fun copy_list :: "'a heap \<Rightarrow> 'a list \<Rightarrow> ptr \<Rightarrow> error + 'a heap" where
  "copy_list h [] d_first = Inr h"
| "copy_list h (x # xs) d_first =
     and_then (store h d_first (Some x)) (\<lambda>h'. copy_list h' xs (ptr_add d_first 1))"

subsection \<open>The class \<^verbatim>\<open>DynamicArray\<close>\<close>

text \<open>
  The two data members: \<^verbatim>\<open>std::size_t size_\<close> and \<^verbatim>\<open>T *values_\<close>. Member functions
  act on objects that may be one and the same (\<^verbatim>\<open>a = a\<close>), so the objects live in a
  store indexed by an object identity, next to the heap; \<open>this\<close> and \<open>other\<close> are
  identities. Before its constructor runs an object has the default member initializers
  \<^verbatim>\<open>size_{0}\<close>, \<^verbatim>\<open>values_{nullptr}\<close>.
\<close>

record DynamicArray =
  size_m :: "64 word"
  values_m :: ptr

datatype 'a state = State (objs: "nat \<Rightarrow> DynamicArray") (heap: "'a heap")

definition init_state :: "'a state" where
  "init_state = State (\<lambda>_. \<lparr>size_m = 0, values_m = nullptr\<rparr>) []"

definition set_heap :: "'a state \<Rightarrow> 'a heap \<Rightarrow> 'a state" where
  "set_heap s h = State (objs s) h"

definition set_size :: "'a state \<Rightarrow> nat \<Rightarrow> 64 word \<Rightarrow> 'a state" where
  "set_size s this n = State ((objs s)(this := (objs s this)\<lparr>size_m := n\<rparr>)) (heap s)"

definition set_values :: "'a state \<Rightarrow> nat \<Rightarrow> ptr \<Rightarrow> 'a state" where
  "set_values s this p = State ((objs s)(this := (objs s this)\<lparr>values_m := p\<rparr>)) (heap s)"

text \<open>
  \<^verbatim>\<open>DynamicArray(std::size_t size) : size_(size), values_(new T[size]{})\<close>, and the two
  constructors that delegate to it and then fill or copy.
\<close>

definition DynamicArray_size :: "'a::zero state \<Rightarrow> nat \<Rightarrow> 64 word \<Rightarrow> error + 'a state" where
  "DynamicArray_size s this size' =
     (let s1 = set_size s this size'
      in and_then (new_array (heap s1) (unat size') (Some 0)) (\<lambda>(h, p).
         Inr (set_values (set_heap s1 h) this p)))"

definition DynamicArray_fill :: "'a::zero state \<Rightarrow> nat \<Rightarrow> 64 word \<Rightarrow> 'a \<Rightarrow> error + 'a state" where
  "DynamicArray_fill s this size' v =
     and_then (DynamicArray_size s this size') (\<lambda>s1.
     let a = objs s1 this
     in and_then (std_fill (heap s1) (values_m a) (ptr_add (values_m a) (uint (size_m a))) v) (\<lambda>h.
        Inr (set_heap s1 h)))"

definition DynamicArray_list :: "'a::zero state \<Rightarrow> nat \<Rightarrow> 'a list \<Rightarrow> error + 'a state" where
  "DynamicArray_list s this l =
     and_then (DynamicArray_size s this (of_nat (length l))) (\<lambda>s1.
     and_then (copy_list (heap s1) l (values_m (objs s1 this))) (\<lambda>h.
     Inr (set_heap s1 h)))"

text \<open>\<^verbatim>\<open>~DynamicArray()\<close>: \<^verbatim>\<open>if (values_ != nullptr) delete[] values_;\<close>\<close>

definition DynamicArray_dtor :: "'a state \<Rightarrow> nat \<Rightarrow> error + 'a state" where
  "DynamicArray_dtor s this =
     (if values_m (objs s this) \<noteq> nullptr
      then and_then (delete_array (heap s) (values_m (objs s this))) (\<lambda>h. Inr (set_heap s h))
      else Inr s)"

text \<open>
  The statement \<^verbatim>\<open>std::copy(other.values_, other.values_ + other.size_, values_)\<close>,
  which the copy and move constructors and both assignment operators contain.
\<close>

definition copy_values :: "'a state \<Rightarrow> nat \<Rightarrow> nat \<Rightarrow> error + 'a state" where
  "copy_values s this other =
     (let b = objs s other
      in and_then (std_copy (heap s) (values_m b) (ptr_add (values_m b) (uint (size_m b)))
                     (values_m (objs s this))) (\<lambda>h.
         Inr (set_heap s h)))"

text \<open>
  The copy constructor delegates to \<^verbatim>\<open>DynamicArray(other.size_)\<close> and copies. The move
  constructor does the same and then empties the source:
  \<^verbatim>\<open>other.size_ = 0; delete[] other.values_; other.values_ = nullptr;\<close>
\<close>

definition DynamicArray_copy :: "'a::zero state \<Rightarrow> nat \<Rightarrow> nat \<Rightarrow> error + 'a state" where
  "DynamicArray_copy s this other =
     and_then (DynamicArray_size s this (size_m (objs s other))) (\<lambda>s1.
     copy_values s1 this other)"

definition DynamicArray_move :: "'a::zero state \<Rightarrow> nat \<Rightarrow> nat \<Rightarrow> error + 'a state" where
  "DynamicArray_move s this other =
     and_then (DynamicArray_size s this (size_m (objs s other))) (\<lambda>s1.
     and_then (copy_values s1 this other) (\<lambda>s2.
     let s3 = set_size s2 other 0
     in and_then (delete_array (heap s3) (values_m (objs s3 other))) (\<lambda>h.
        Inr (set_values (set_heap s3 h) other nullptr))))"

text \<open>
  Copy assignment:
  \<^verbatim>\<open>size_ = other.size_; delete[] values_; values_ = new T[size_]; std::copy(...);\<close>
  Move assignment:
  \<^verbatim>\<open>size_ = other.size_; delete values_; values_ = new T[size_]; std::copy(...);
  other.size_ = 0; delete other.values_;\<close>
  Neither tests for \<^verbatim>\<open>this == &other\<close>, and move assignment leaves
  \<^verbatim>\<open>other.values_\<close> as it was.
\<close>

definition copy_assign :: "'a state \<Rightarrow> nat \<Rightarrow> nat \<Rightarrow> error + 'a state" where
  "copy_assign s this other =
     (let s1 = set_size s this (size_m (objs s other))
      in and_then (delete_array (heap s1) (values_m (objs s1 this))) (\<lambda>h1.
         and_then (new_array h1 (unat (size_m (objs s1 this))) None) (\<lambda>(h2, p).
         copy_values (set_values (set_heap s1 h2) this p) this other)))"

definition move_assign :: "'a state \<Rightarrow> nat \<Rightarrow> nat \<Rightarrow> error + 'a state" where
  "move_assign s this other =
     (let s1 = set_size s this (size_m (objs s other))
      in and_then (delete_scalar (heap s1) (values_m (objs s1 this))) (\<lambda>h1.
         and_then (new_array h1 (unat (size_m (objs s1 this))) None) (\<lambda>(h2, p).
         and_then (copy_values (set_values (set_heap s1 h2) this p) this other) (\<lambda>s3.
         let s4 = set_size s3 other 0
         in and_then (delete_scalar (heap s4) (values_m (objs s4 other))) (\<lambda>h4.
            Inr (set_heap s4 h4))))))"

text \<open>
  \<^verbatim>\<open>T &operator[](int idx)\<close>: \<^verbatim>\<open>if (idx >= size_) throw std::range_error(...)\<close>, then
  \<^verbatim>\<open>return values_[idx]\<close>. The comparison is between an \<^verbatim>\<open>int\<close> and a \<^verbatim>\<open>size_t\<close>:
  the index is converted to the unsigned 64-bit type first (\<open>scast\<close>, which extends the
  sign), so a negative index compares as a value of at least \<open>2^64 - 2^31\<close>. The
  reference returned is the pointer \<^verbatim>\<open>values_ + idx\<close>. \<open>assign_elem\<close> and \<open>read_elem\<close>
  are the statements \<^verbatim>\<open>a[idx] = v\<close> and \<^verbatim>\<open>x = a[idx]\<close>.
\<close>

definition subscript :: "'a state \<Rightarrow> nat \<Rightarrow> 32 word \<Rightarrow> error + ptr" where
  "subscript s this idx =
     (let a = objs s this
      in if size_m a \<le> scast idx then Inl (range_error idx (size_m a))
         else Inr (ptr_add (values_m a) (sint idx)))"

definition assign_elem :: "'a state \<Rightarrow> nat \<Rightarrow> 32 word \<Rightarrow> 'a \<Rightarrow> error + 'a state" where
  "assign_elem s this idx v =
     and_then (subscript s this idx) (\<lambda>p.
     and_then (store (heap s) p (Some v)) (\<lambda>h. Inr (set_heap s h)))"

definition read_elem :: "'a state \<Rightarrow> nat \<Rightarrow> 32 word \<Rightarrow> error + 'a option" where
  "read_elem s this idx = and_then (subscript s this idx) (load (heap s))"

text \<open>
  The elements a container holds, and the class invariant: a container is either empty
  with a null pointer (the moved-from state), or its pointer is the start of a live
  block of \<open>size_\<close> cells. The constructor establishes it
  (\<open>constructor_establishes_invariant\<close> below). Two containers are \<open>exclusive\<close> when
  they do not share a buffer, as single ownership requires of distinct objects.
\<close>

definition elems :: "'a state \<Rightarrow> nat \<Rightarrow> 'a option list" where
  "elems s this =
     (case lookup_block (heap s) (block (values_m (objs s this))) of
        Some (Live cs) \<Rightarrow> cs
      | _ \<Rightarrow> [])"

definition valid :: "'a state \<Rightarrow> nat \<Rightarrow> bool" where
  "valid s this =
     (let a = objs s this
      in unat (size_m a) \<le> PTRDIFF_MAX \<and>
         (if values_m a = nullptr then size_m a = 0
          else off (values_m a) = 0 \<and>
               (case lookup_block (heap s) (block (values_m a)) of
                  Some (Live cs) \<Rightarrow> length cs = unat (size_m a)
                | _ \<Rightarrow> False)))"

definition exclusive :: "'a state \<Rightarrow> nat \<Rightarrow> nat \<Rightarrow> bool" where
  "exclusive s a b =
     (values_m (objs s a) = nullptr \<or> values_m (objs s b) = nullptr
      \<or> block (values_m (objs s a)) \<noteq> block (values_m (objs s b)))"

text \<open>The heap after \<^verbatim>\<open>delete[] p\<close> has succeeded.\<close>

definition released :: "'a heap \<Rightarrow> ptr \<Rightarrow> 'a heap" where
  "released h p = (case block p of 0 \<Rightarrow> h | Suc b \<Rightarrow> h[b := Freed])"

text \<open>
  \<^verbatim>\<open>delete[] p\<close> is defined exactly when \<open>p\<close> is null or the start of a live block.
\<close>

definition releasable :: "'a heap \<Rightarrow> ptr \<Rightarrow> bool" where
  "releasable h p =
     (p = nullptr \<or>
      (off p = 0 \<and> (case lookup_block h (block p) of Some (Live cs) \<Rightarrow> True | _ \<Rightarrow> False)))"

text \<open>
  The state in which move assignment leaves its source: the size is zero, and
  \<^verbatim>\<open>values_\<close> still holds the address of a block that has been released.
\<close>

definition stale :: "'a state \<Rightarrow> nat \<Rightarrow> bool" where
  "stale s a =
     (size_m (objs s a) = 0 \<and> values_m (objs s a) \<noteq> nullptr \<and> off (values_m (objs s a)) = 0
      \<and> lookup_block (heap s) (block (values_m (objs s a))) = Some Freed)"

subsection \<open>The class \<^verbatim>\<open>DynamicArray::iterator\<close>\<close>

text \<open>
  The iterator wraps one pointer, \<^verbatim>\<open>pointer ptr_{nullptr}\<close>; \<^verbatim>\<open>difference_type\<close> is
  \<^verbatim>\<open>std::ptrdiff_t\<close>, modelled as an integer (the offsets inside a buffer fit it).
  Increment and decrement return the updated iterator; the postfix forms return the
  old value with it. The difference of two iterators is the difference of their
  pointers, which C++ defines for pointers into the same array only. The ordering
  operator and the operators with the integer on the left are used by no statement
  below and are left out.
\<close>

datatype iterator = iterator (ptr_m: ptr)

definition iterator_default :: iterator where
  "iterator_default = iterator nullptr"

definition iterator_deref :: "'a heap \<Rightarrow> iterator \<Rightarrow> error + 'a option" where
  "iterator_deref h it = load h (ptr_m it)"

definition iterator_subscript :: "'a heap \<Rightarrow> iterator \<Rightarrow> int \<Rightarrow> error + 'a option" where
  "iterator_subscript h it diff = load h (ptr_add (ptr_m it) diff)"

definition pre_increment :: "iterator \<Rightarrow> iterator" where
  "pre_increment it = iterator (ptr_add (ptr_m it) 1)"

definition post_increment :: "iterator \<Rightarrow> iterator \<times> iterator" where
  "post_increment it = (let tmp = it in (tmp, pre_increment it))"

definition pre_decrement :: "iterator \<Rightarrow> iterator" where
  "pre_decrement it = iterator (ptr_add (ptr_m it) (- 1))"

definition post_decrement :: "iterator \<Rightarrow> iterator \<times> iterator" where
  "post_decrement it = (let tmp = it in (tmp, pre_decrement it))"

definition plus_assign :: "iterator \<Rightarrow> int \<Rightarrow> iterator" where
  "plus_assign it diff = iterator (ptr_add (ptr_m it) diff)"

definition minus_assign :: "iterator \<Rightarrow> int \<Rightarrow> iterator" where
  "minus_assign it diff = iterator (ptr_add (ptr_m it) (- diff))"

definition iterator_eq :: "iterator \<Rightarrow> iterator \<Rightarrow> bool" where
  "iterator_eq lhs rhs = (ptr_m lhs = ptr_m rhs)"

definition iterator_ne :: "iterator \<Rightarrow> iterator \<Rightarrow> bool" where
  "iterator_ne lhs rhs = (ptr_m lhs \<noteq> ptr_m rhs)"

definition iterator_difference :: "iterator \<Rightarrow> iterator \<Rightarrow> error + int" where
  "iterator_difference lhs rhs =
     (if block (ptr_m lhs) = block (ptr_m rhs) then Inr (ptr_diff (ptr_m lhs) (ptr_m rhs))
      else Inl (undefined unrelated_pointers))"

definition iterator_minus :: "iterator \<Rightarrow> int \<Rightarrow> iterator" where
  "iterator_minus it diff = iterator (ptr_add (ptr_m it) (- diff))"

definition iterator_plus :: "iterator \<Rightarrow> int \<Rightarrow> iterator" where
  "iterator_plus it diff = iterator (ptr_add (ptr_m it) diff)"

text \<open>\<^verbatim>\<open>begin()\<close> is \<^verbatim>\<open>iterator(values_)\<close>, \<^verbatim>\<open>end()\<close> is \<^verbatim>\<open>iterator(values_ + size_)\<close>.\<close>

definition DynamicArray_begin :: "'a state \<Rightarrow> nat \<Rightarrow> iterator" where
  "DynamicArray_begin s this = iterator (values_m (objs s this))"

definition DynamicArray_end :: "'a state \<Rightarrow> nat \<Rightarrow> iterator" where
  "DynamicArray_end s this =
     iterator (ptr_add (values_m (objs s this)) (uint (size_m (objs s this))))"

subsection \<open>Sequences of operations\<close>

text \<open>
  A program that declares, assigns and destroys containers is a list of operations,
  run from left to right; the first error ends the run, as an exception or undefined
  behaviour ends the program.
\<close>

datatype 'a operation =
    Construct nat "64 word"
  | ConstructFill nat "64 word" 'a
  | ConstructList nat "'a list"
  | CopyConstruct nat nat
  | MoveConstruct nat nat
  | CopyAssign nat nat
  | MoveAssign nat nat
  | Destroy nat

fun exec :: "'a::zero state \<Rightarrow> 'a operation \<Rightarrow> error + 'a state" where
  "exec s (Construct this n) = DynamicArray_size s this n"
| "exec s (ConstructFill this n v) = DynamicArray_fill s this n v"
| "exec s (ConstructList this l) = DynamicArray_list s this l"
| "exec s (CopyConstruct this other) = DynamicArray_copy s this other"
| "exec s (MoveConstruct this other) = DynamicArray_move s this other"
| "exec s (CopyAssign this other) = copy_assign s this other"
| "exec s (MoveAssign this other) = move_assign s this other"
| "exec s (Destroy this) = DynamicArray_dtor s this"

fun run :: "'a::zero state \<Rightarrow> 'a operation list \<Rightarrow> error + 'a state" where
  "run s [] = Inr s"
| "run s (x # xs) = and_then (exec s x) (\<lambda>s'. run s' xs)"

text \<open>
  Two states used as examples below: after \<^verbatim>\<open>DynamicArray<uint> a(5);\<close>, and after
  \<^verbatim>\<open>DynamicArray<uint> a{1, 2, 3}; DynamicArray<uint> b(2);\<close> (objects 0 and 1).
\<close>

definition arr5 :: "(32 word) state" where
  "arr5 = State ((\<lambda>_. \<lparr>size_m = 0, values_m = nullptr\<rparr>)
                      (0 := \<lparr>size_m = 5, values_m = Ptr 1 0\<rparr>))
                 [Live (replicate 5 (Some 0))]"

definition two_arrays :: "(32 word) state" where
  "two_arrays = State ((\<lambda>_. \<lparr>size_m = 0, values_m = nullptr\<rparr>)
                         (0 := \<lparr>size_m = 3, values_m = Ptr 1 0\<rparr>,
                          1 := \<lparr>size_m = 2, values_m = Ptr 2 0\<rparr>))
                      [Live [Some 1, Some 2, Some 3], Live [Some 0, Some 0]]"

text \<open>The two containers after \<^verbatim>\<open>b = std::move(a)\<close>, with \<open>a\<close> as object 0 and \<open>b\<close> as object 1.\<close>

definition moved_arrays :: "(32 word) state" where
  "moved_arrays = State ((objs two_arrays)
                           (Suc 0 := \<lparr>size_m = 3, values_m = Ptr (Suc (Suc (Suc 0))) 0\<rparr>,
                            0 := \<lparr>size_m = 0, values_m = Ptr (Suc 0) 0\<rparr>))
                        [Freed, Freed, Live [Some 1, Some 2, Some 3]]"

subsection \<open>The heap loops\<close>

lemma and_then_Inr [simp]: "and_then (Inr x) f = f x"
  by (simp add: and_then_def)

lemma and_then_Inl [simp]: "and_then (Inl e) f = Inl e"
  by (simp add: and_then_def)

lemma lookup_block_Suc [simp]:
  "lookup_block h (Suc b) = (if b < length h then Some (h ! b) else None)"
  by (auto simp: lookup_block_def)

lemma lookup_block_0 [simp]: "lookup_block h 0 = None"
  by (simp add: lookup_block_def)

lemma list_update_nth_same: "h ! b = x \<Longrightarrow> h[b := x] = h"
  by auto

lemma ptr_add_Suc: "ptr_add (Ptr b (int k)) 1 = Ptr b (int (Suc k))"
  by (simp add: ptr_add_def)

lemma load_live:
  "b < length h \<Longrightarrow> h ! b = Live cs \<Longrightarrow> k < length cs \<Longrightarrow>
   load h (Ptr (Suc b) (int k)) = Inr (cs ! k)"
  by (simp add: load_def)

lemma store_live:
  "b < length h \<Longrightarrow> h ! b = Live cs \<Longrightarrow> k < length cs \<Longrightarrow>
   store h (Ptr (Suc b) (int k)) v = Inr (h[b := Live (cs[k := v])])"
  by (simp add: store_def)

lemma copy_loop_blocks:
  assumes "bs \<noteq> bd" "bs < length h" "bd < length h"
    and "h ! bs = Live cs" "h ! bd = Live cd"
    and "k + n \<le> length cs" "k + n \<le> length cd"
  shows "copy_loop h (Ptr (Suc bs) (int k)) n (Ptr (Suc bd) (int k))
       = Inr (h[bd := Live (take k cd @ take n (drop k cs) @ drop (k + n) cd)])"
  using assms
proof (induction n arbitrary: h k cd)
  case 0
  then show ?case by (simp add: list_update_nth_same)
next
  case (Suc n)
  let ?h = "h[bd := Live (cd[k := cs ! k])]"
  have ld: "load h (Ptr (Suc bs) (int k)) = Inr (cs ! k)"
    using Suc.prems by (intro load_live) auto
  have st: "store h (Ptr (Suc bd) (int k)) (cs ! k) = Inr ?h"
    using Suc.prems by (intro store_live) auto
  have "copy_loop ?h (Ptr (Suc bs) (int (Suc k))) n (Ptr (Suc bd) (int (Suc k)))
      = Inr (?h[bd := Live (take (Suc k) (cd[k := cs ! k]) @ take n (drop (Suc k) cs)
                             @ drop (Suc k + n) (cd[k := cs ! k]))])"
    using Suc.prems by (intro Suc.IH) auto
  moreover have "take (Suc k) (cd[k := cs ! k]) = take k cd @ [cs ! k]"
    using Suc.prems by (simp add: take_Suc_conv_app_nth)
  moreover have "take (Suc n) (drop k cs) = cs ! k # take n (drop (Suc k) cs)"
    using Suc.prems by (simp add: Cons_nth_drop_Suc [symmetric])
  ultimately show ?case
    by (simp add: ld st ptr_add_Suc)
qed

lemma copy_loop_self:
  assumes "b < length h" "h ! b = Live cs" "k + n \<le> length cs"
  shows "copy_loop h (Ptr (Suc b) (int k)) n (Ptr (Suc b) (int k)) = Inr h"
  using assms
proof (induction n arbitrary: k)
  case 0
  then show ?case by simp
next
  case (Suc n)
  have ld: "load h (Ptr (Suc b) (int k)) = Inr (cs ! k)"
    using Suc.prems by (intro load_live) auto
  have "store h (Ptr (Suc b) (int k)) (cs ! k) = Inr (h[b := Live (cs[k := cs ! k])])"
    using Suc.prems by (intro store_live) auto
  then have st: "store h (Ptr (Suc b) (int k)) (cs ! k) = Inr h"
    using Suc.prems by (simp add: list_update_nth_same)
  have "copy_loop h (Ptr (Suc b) (int (Suc k))) n (Ptr (Suc b) (int (Suc k))) = Inr h"
    using Suc.prems by (intro Suc.IH) auto
  then show ?case
    by (simp add: ld st ptr_add_Suc)
qed

lemma copy_loop_whole:
  assumes "bs \<noteq> bd" "bs < length h" "bd < length h"
    and "h ! bs = Live cs" "h ! bd = Live cd" "length cd = length cs"
  shows "copy_loop h (Ptr (Suc bs) 0) (length cs) (Ptr (Suc bd) 0) = Inr (h[bd := Live cs])"
  using copy_loop_blocks [OF assms(1-5), of 0 "length cs"] assms(6) by simp

lemma fill_loop_block:
  assumes "b < length h" "h ! b = Live cs" "k + n \<le> length cs"
  shows "fill_loop h (Ptr (Suc b) (int k)) n v
       = Inr (h[b := Live (take k cs @ replicate n (Some v) @ drop (k + n) cs)])"
  using assms
proof (induction n arbitrary: h k cs)
  case 0
  then show ?case by (simp add: list_update_nth_same)
next
  case (Suc n)
  let ?h = "h[b := Live (cs[k := Some v])]"
  have st: "store h (Ptr (Suc b) (int k)) (Some v) = Inr ?h"
    using Suc.prems by (intro store_live) auto
  have "fill_loop ?h (Ptr (Suc b) (int (Suc k))) n v
      = Inr (?h[b := Live (take (Suc k) (cs[k := Some v]) @ replicate n (Some v)
                             @ drop (Suc k + n) (cs[k := Some v]))])"
    using Suc.prems by (intro Suc.IH) auto
  moreover have "take (Suc k) (cs[k := Some v]) = take k cs @ [Some v]"
    using Suc.prems by (simp add: take_Suc_conv_app_nth)
  ultimately show ?case
    by (simp add: st ptr_add_Suc replicate_app_Cons_same)
qed

lemma copy_list_block:
  assumes "b < length h" "h ! b = Live cs" "k + length xs \<le> length cs"
  shows "copy_list h xs (Ptr (Suc b) (int k))
       = Inr (h[b := Live (take k cs @ map Some xs @ drop (k + length xs) cs)])"
  using assms
proof (induction xs arbitrary: h k cs)
  case Nil
  then show ?case by (simp add: list_update_nth_same)
next
  case (Cons x xs)
  let ?h = "h[b := Live (cs[k := Some x])]"
  have st: "store h (Ptr (Suc b) (int k)) (Some x) = Inr ?h"
    using Cons.prems by (intro store_live) auto
  have "copy_list ?h xs (Ptr (Suc b) (int (Suc k)))
      = Inr (?h[b := Live (take (Suc k) (cs[k := Some x]) @ map Some xs
                             @ drop (Suc k + length xs) (cs[k := Some x]))])"
    using Cons.prems by (intro Cons.IH) auto
  moreover have "take (Suc k) (cs[k := Some x]) = take k cs @ [Some x]"
    using Cons.prems by (simp add: take_Suc_conv_app_nth)
  ultimately show ?case
    by (simp add: st ptr_add_Suc)
qed

subsection \<open>The class invariant and the constructors\<close>

lemma nullptr_not_Suc [simp]: "Ptr (Suc b) k \<noteq> nullptr" "nullptr \<noteq> Ptr (Suc b) k"
  by (simp_all add: nullptr_def)

lemma block_nullptr [simp]: "block nullptr = 0"
  by (simp add: nullptr_def)

lemma size_m_update_conv: "r\<lparr>size_m := n\<rparr> = \<lparr>size_m = n, values_m = values_m r\<rparr>"
  by (cases r) simp

lemma values_m_update_conv: "r\<lparr>values_m := p\<rparr> = \<lparr>size_m = size_m r, values_m = p\<rparr>"
  by (cases r) simp

lemmas field_updates = size_m_update_conv values_m_update_conv set_size_def set_values_def set_heap_def

lemma valid_cases:
  assumes "valid s a"
  obtains (null) "values_m (objs s a) = nullptr" "size_m (objs s a) = 0" "elems s a = []"
  | (owner) b cs where "values_m (objs s a) = Ptr (Suc b) 0" "b < length (heap s)"
      "heap s ! b = Live cs" "length cs = unat (size_m (objs s a))" "elems s a = cs"
proof (cases "values_m (objs s a) = nullptr")
  case True
  with assms have "size_m (objs s a) = 0"
    by (simp add: valid_def Let_def)
  moreover have "elems s a = []"
    using True by (simp add: elems_def)
  ultimately show ?thesis using True null by blast
next
  case False
  obtain bb k where p: "values_m (objs s a) = Ptr bb k"
    by (cases "values_m (objs s a)")
  with assms False have k: "k = 0"
    by (simp add: valid_def Let_def)
  with p False obtain b where bb: "bb = Suc b"
    by (cases bb) (auto simp: nullptr_def)
  from assms False p k bb obtain cs where
    "b < length (heap s)" "heap s ! b = Live cs" "length cs = unat (size_m (objs s a))"
    by (auto simp: valid_def Let_def split: if_splits option.splits block.splits)
  then show ?thesis
    using p k bb owner by (simp add: elems_def)
qed

lemma valid_size: "valid s a \<Longrightarrow> unat (size_m (objs s a)) \<le> PTRDIFF_MAX"
  by (simp add: valid_def Let_def)

lemma valid_length_elems: "valid s a \<Longrightarrow> length (elems s a) = unat (size_m (objs s a))"
  by (erule valid_cases) auto

text \<open>A container that has just received a fresh block.\<close>

lemma elems_fresh_block:
  "length h = L \<Longrightarrow> values_m (f a) = Ptr (Suc L) 0 \<Longrightarrow> elems (State f (h @ [Live cs])) a = cs"
  by (auto simp: elems_def)

lemma valid_fresh_block:
  "length h = L \<Longrightarrow> values_m (f a) = Ptr (Suc L) 0 \<Longrightarrow> length cs = unat (size_m (f a)) \<Longrightarrow>
   unat (size_m (f a)) \<le> PTRDIFF_MAX \<Longrightarrow> valid (State f (h @ [Live cs])) a"
  by (auto simp: valid_def)

lemma new_array_result:
  "n \<le> PTRDIFF_MAX \<Longrightarrow>
   new_array h n i = Inr (h @ [Live (replicate n i)], Ptr (Suc (length h)) 0)"
  by (simp add: new_array_def)

lemma DynamicArray_size_result:
  assumes "unat n \<le> PTRDIFF_MAX"
  shows "DynamicArray_size s this n
       = Inr (State ((objs s)(this := \<lparr>size_m = n, values_m = Ptr (Suc (length (heap s))) 0\<rparr>))
                    (heap s @ [Live (replicate (unat n) (Some 0))]))"
  using assms
  by (simp add: DynamicArray_size_def new_array_result field_updates)

lemma DynamicArray_size_too_large:
  assumes "PTRDIFF_MAX < unat n"
  shows "DynamicArray_size s this n = Inl bad_array_new_length"
  using assms by (simp add: DynamicArray_size_def new_array_def set_size_def)

lemma std_copy_count: "std_copy h p (ptr_add p (uint n)) d = copy_loop h p (unat n) d"
  by (simp add: std_copy_def ptr_diff_def ptr_add_def)

lemma std_fill_count: "std_fill h p (ptr_add p (uint n)) v = fill_loop h p (unat n) v"
  by (simp add: std_fill_def ptr_diff_def ptr_add_def)

lemma State_collapse [simp]: "State (objs s) (heap s) = s"
  by (cases s) simp

lemma copy_values_null:
  assumes "values_m (objs s other) = nullptr" "size_m (objs s other) = 0"
  shows "copy_values s this other = Inr s"
  using assms by (simp add: copy_values_def std_copy_count set_heap_def)

lemma copy_values_blocks:
  assumes "values_m (objs s other) = Ptr (Suc bs) 0" "values_m (objs s this) = Ptr (Suc bd) 0"
    and "bs \<noteq> bd" "bs < length (heap s)" "bd < length (heap s)"
    and "heap s ! bs = Live cs" "heap s ! bd = Live cd"
    and "length cs = unat (size_m (objs s other))" "length cd = length cs"
  shows "copy_values s this other = Inr (State (objs s) ((heap s)[bd := Live cs]))"
proof -
  have "copy_loop (heap s) (Ptr (Suc bs) 0) (length cs) (Ptr (Suc bd) 0)
      = Inr ((heap s)[bd := Live cs])"
    using assms(3-7,9) by (rule copy_loop_whole)
  then have "copy_loop (heap s) (Ptr (Suc bs) 0) (unat (size_m (objs s other))) (Ptr (Suc bd) 0)
      = Inr ((heap s)[bd := Live cs])"
    by (simp only: assms(8))
  then show ?thesis
    by (simp add: copy_values_def std_copy_count assms(1,2) set_heap_def)
qed

lemma copy_values_self:
  assumes "values_m (objs s this) = Ptr (Suc b) 0" "b < length (heap s)"
    and "heap s ! b = Live cs" "length cs = unat (size_m (objs s this))"
  shows "copy_values s this this = Inr s"
proof -
  have "copy_loop (heap s) (Ptr (Suc b) (int 0)) (length cs) (Ptr (Suc b) (int 0)) = Inr (heap s)"
    using assms(2,3) by (rule copy_loop_self) simp
  then have "copy_loop (heap s) (Ptr (Suc b) 0) (unat (size_m (objs s this))) (Ptr (Suc b) 0)
      = Inr (heap s)"
    by (simp add: assms(4))
  then show ?thesis
    by (simp add: copy_values_def std_copy_count assms(1) set_heap_def)
qed

text \<open>Copying into a fresh block at the end of the heap.\<close>

lemma copy_values_fresh:
  assumes "valid (State g h0) other" "this \<noteq> other" "length h = length h0"
    and "values_m (f this) = Ptr (Suc (length h)) 0" "f other = g other"
    and "length cd = unat (size_m (g other))"
    and "\<And>b. values_m (g other) = Ptr (Suc b) 0 \<Longrightarrow> h ! b = h0 ! b"
  shows "copy_values (State f (h @ [Live cd])) this other
       = Inr (State f (h @ [Live (elems (State g h0) other)]))"
  using assms(1)
proof (cases rule: valid_cases)
  case null
  have "copy_values (State f (h @ [Live cd])) this other = Inr (State f (h @ [Live cd]))"
    using null assms(5) by (intro copy_values_null) auto
  with null assms(6) show ?thesis by simp
next
  case (owner b cs)
  have "copy_values (State f (h @ [Live cd])) this other
      = Inr (State (objs (State f (h @ [Live cd]))) ((heap (State f (h @ [Live cd])))[length h := Live cs]))"
    using owner assms(2-7)
    by (intro copy_values_blocks [where bs = b and cd = cd]) (auto simp: nth_append)
  with owner show ?thesis by simp
qed

lemma DynamicArray_copy_result:
  assumes "valid s other" "this \<noteq> other"
  shows "DynamicArray_copy s this other
       = Inr (State ((objs s)(this := \<lparr>size_m = size_m (objs s other),
                                        values_m = Ptr (Suc (length (heap s))) 0\<rparr>))
                    (heap s @ [Live (elems s other)]))"
proof -
  let ?n = "size_m (objs s other)"
  let ?f = "(objs s)(this := \<lparr>size_m = ?n, values_m = Ptr (Suc (length (heap s))) 0\<rparr>)"
  have c: "DynamicArray_size s this ?n
      = Inr (State ?f (heap s @ [Live (replicate (unat ?n) (Some 0))]))"
    using assms(1) by (intro DynamicArray_size_result valid_size)
  have "copy_values (State ?f (heap s @ [Live (replicate (unat ?n) (Some 0))])) this other
      = Inr (State ?f (heap s @ [Live (elems (State (objs s) (heap s)) other)]))"
    using assms by (intro copy_values_fresh) auto
  then show ?thesis
    unfolding DynamicArray_copy_def c by simp
qed

subsection \<open>Index conversion and element access\<close>

lemma scast_index:
  fixes idx :: "32 word" and n :: "64 word"
  assumes "unat n \<le> PTRDIFF_MAX"
  shows "n \<le> scast idx \<longleftrightarrow> \<not> (0 \<le> sint idx \<and> sint idx < uint n)"
proof -
  have u: "uint (scast idx :: 64 word) = sint idx mod 2 ^ 64"
    by (subst scast_eq) (simp only: uint_word_of_int, simp)
  have lo: "- (2 ^ 31) \<le> sint idx" and hi: "sint idx < 2 ^ 31"
    using sint_ge [of idx] sint_lt [of idx] by simp_all
  have "unat n < 2 ^ 63"
    using assms by (simp add: PTRDIFF_MAX_def)
  then have "int (unat n) < 2 ^ 63"
    by (metis of_nat_less_iff of_nat_numeral of_nat_power)
  then have n: "uint n < 2 ^ 63"
    by simp
  show ?thesis
  proof (cases "0 \<le> sint idx")
    case True
    with hi have "sint idx mod 2 ^ 64 = sint idx"
      by (intro mod_pos_pos_trivial) auto
    with True u show ?thesis
      by (auto simp: word_le_def)
  next
    case False
    have "sint idx mod 2 ^ 64 = (sint idx + 2 ^ 64) mod 2 ^ 64"
      by simp
    also have "\<dots> = sint idx + 2 ^ 64"
      using lo False by (intro mod_pos_pos_trivial) auto
    finally have "uint (scast idx :: 64 word) = sint idx + 2 ^ 64"
      using u by simp
    with lo n False show ?thesis
      by (auto simp: word_le_def)
  qed
qed

lemma subscript_in_range:
  assumes "valid s this" "0 \<le> sint idx" "sint idx < uint (size_m (objs s this))"
  shows "subscript s this idx = Inr (ptr_add (values_m (objs s this)) (sint idx))"
  using assms scast_index [OF valid_size [OF assms(1)], of idx]
  by (simp add: subscript_def Let_def)

lemma subscript_out_of_range:
  assumes "valid s this" "\<not> (0 \<le> sint idx \<and> sint idx < uint (size_m (objs s this)))"
  shows "subscript s this idx = Inl (range_error idx (size_m (objs s this)))"
  using assms scast_index [OF valid_size [OF assms(1)], of idx]
  by (simp add: subscript_def Let_def)

lemma load_in_range:
  assumes "valid s this" "0 \<le> k" "k < uint (size_m (objs s this))"
  shows "load (heap s) (ptr_add (values_m (objs s this)) k) = Inr (elems s this ! nat k)"
  using assms(1)
proof (cases rule: valid_cases)
  case null
  with assms show ?thesis by simp
next
  case (owner b cs)
  have "nat k < length cs"
    using assms owner by (simp add: nat_less_iff)
  then have "load (heap s) (Ptr (Suc b) (int (nat k))) = Inr (cs ! nat k)"
    using owner by (intro load_live) auto
  with owner assms show ?thesis
    by (simp add: ptr_add_def)
qed

lemma store_in_range:
  assumes "valid s this" "0 \<le> k" "k < uint (size_m (objs s this))"
  obtains b where "values_m (objs s this) = Ptr (Suc b) 0" "b < length (heap s)"
    "heap s ! b = Live (elems s this)"
    "store (heap s) (ptr_add (values_m (objs s this)) k) v
       = Inr ((heap s)[b := Live ((elems s this)[nat k := v])])"
  using assms(1)
proof (cases rule: valid_cases)
  case null
  with assms show ?thesis by simp
next
  case (owner b cs)
  have "nat k < length cs"
    using assms owner by (simp add: nat_less_iff)
  then have "store (heap s) (Ptr (Suc b) (int (nat k))) v = Inr ((heap s)[b := Live (cs[nat k := v])])"
    using owner by (intro store_live) auto
  with owner assms that show ?thesis
    by (simp add: ptr_add_def)
qed

lemma arr5_constructed: "DynamicArray_size init_state 0 5 = Inr arr5"
proof -
  have "unat (5 :: 64 word) \<le> PTRDIFF_MAX"
    by (simp add: PTRDIFF_MAX_def)
  then show ?thesis
    by (simp add: DynamicArray_size_result arr5_def init_state_def)
qed

lemma valid_arr5: "valid arr5 0"
  by (simp add: valid_def arr5_def init_state_def PTRDIFF_MAX_def nullptr_def)

text \<open>Objects other than the one that received a fresh block keep their elements.\<close>

lemma elems_heap_append:
  assumes "valid (State g h) a" "f a = g a"
  shows "elems (State f (h @ bs)) a = elems (State g h) a"
  using assms(1)
proof (cases rule: valid_cases)
  case null
  with assms show ?thesis by (simp add: elems_def)
next
  case (owner b cs)
  with assms show ?thesis by (simp add: elems_def nth_append)
qed

lemma valid_heap_append:
  assumes "valid (State g h) a" "f a = g a"
  shows "valid (State f (h @ bs)) a"
  using assms(1)
proof (cases rule: valid_cases)
  case null
  with assms show ?thesis by (simp add: valid_def)
next
  case (owner b cs)
  with assms valid_size [OF assms(1)] show ?thesis
    by (simp add: valid_def nth_append)
qed

lemma assign_elem_in_range:
  assumes "valid s a" "0 \<le> sint idx" "sint idx < uint (size_m (objs s a))"
  obtains b where "values_m (objs s a) = Ptr (Suc b) 0" "b < length (heap s)"
    "heap s ! b = Live (elems s a)"
    "assign_elem s a idx v
       = Inr (State (objs s) ((heap s)[b := Live ((elems s a)[nat (sint idx) := Some v])]))"
proof -
  have sub: "subscript s a idx = Inr (ptr_add (values_m (objs s a)) (sint idx))"
    using assms by (rule subscript_in_range)
  from assms obtain b where b: "values_m (objs s a) = Ptr (Suc b) 0" "b < length (heap s)"
    "heap s ! b = Live (elems s a)"
    "store (heap s) (ptr_add (values_m (objs s a)) (sint idx)) (Some v)
       = Inr ((heap s)[b := Live ((elems s a)[nat (sint idx) := Some v])])"
    by (rule store_in_range)
  then have "assign_elem s a idx v
       = Inr (State (objs s) ((heap s)[b := Live ((elems s a)[nat (sint idx) := Some v])]))"
    by (simp add: assign_elem_def sub set_heap_def)
  with b that show ?thesis by blast
qed

text \<open>
  Writing through \<open>a[idx]\<close> changes element \<open>idx\<close> of \<open>a\<close>, and no element of a
  container whose buffer is another block.
\<close>

lemma assign_elem_effect:
  assumes "valid s a" "0 \<le> sint idx" "sint idx < uint (size_m (objs s a))"
    and "valid s c" "values_m (objs s c) \<noteq> values_m (objs s a)"
  shows "\<exists>t. assign_elem s a idx v = Inr t
           \<and> elems t a = (elems s a)[nat (sint idx) := Some v]
           \<and> elems t c = elems s c"
proof -
  from assms(1-3) obtain b where b: "values_m (objs s a) = Ptr (Suc b) 0" "b < length (heap s)"
    "assign_elem s a idx v
       = Inr (State (objs s) ((heap s)[b := Live ((elems s a)[nat (sint idx) := Some v])]))"
    by (rule assign_elem_in_range)
  let ?t = "State (objs s) ((heap s)[b := Live ((elems s a)[nat (sint idx) := Some v])])"
  have "elems ?t a = (elems s a)[nat (sint idx) := Some v]"
    using b(1,2) by (simp add: elems_def)
  moreover have "elems ?t c = elems s c"
    using assms(4)
  proof (cases rule: valid_cases)
    case null
    then show ?thesis by (simp add: elems_def)
  next
    case (owner d cs)
    with assms(5) b(1) have "d \<noteq> b" by auto
    with owner show ?thesis by (simp add: elems_def)
  qed
  ultimately show ?thesis using b(3) by blast
qed

subsection \<open>Release, assignment, move and destruction\<close>

lemma length_released [simp]: "length (released h p) = length h"
  by (simp add: released_def split: nat.splits)

lemma released_nullptr [simp]: "released h nullptr = h"
  by (simp add: released_def)

lemma released_Ptr [simp]: "released h (Ptr (Suc b) k) = h[b := Freed]"
  by (simp add: released_def)

lemma released_nth:
  "c < length h \<Longrightarrow> released h p ! c = (if block p = Suc c then Freed else h ! c)"
  by (auto simp: released_def split: nat.splits)

lemma delete_array_live:
  "b < length h \<Longrightarrow> h ! b = Live cs \<Longrightarrow> delete_array h (Ptr (Suc b) 0) = Inr (h[b := Freed])"
  by (simp add: delete_array_def)

lemma delete_array_freed:
  "b < length h \<Longrightarrow> h ! b = Freed \<Longrightarrow> delete_array h (Ptr (Suc b) 0) = Inl (undefined double_free)"
  by (simp add: delete_array_def)

lemma delete_array_nullptr [simp]: "delete_array h nullptr = Inr h"
  by (simp add: delete_array_def)

lemma delete_array_valid:
  assumes "valid s a"
  shows "delete_array (heap s) (values_m (objs s a)) = Inr (released (heap s) (values_m (objs s a)))"
  using assms
proof (cases rule: valid_cases)
  case null
  then show ?thesis by simp
next
  case (owner b cs)
  then show ?thesis by (simp add: delete_array_live)
qed

text \<open>The steps the two assignment operators share: size, release, fresh block, copy.\<close>

lemma assign_copy_steps:
  assumes "valid s this" "valid s other" "this \<noteq> other" "exclusive s this other"
  defines "n \<equiv> size_m (objs s other)"
  defines "h1 \<equiv> released (heap s) (values_m (objs s this))"
  defines "f \<equiv> (objs s)(this := \<lparr>size_m = n, values_m = Ptr (Suc (length (heap s))) 0\<rparr>)"
  shows "new_array h1 (unat n) None
           = Inr (h1 @ [Live (replicate (unat n) None)], Ptr (Suc (length (heap s))) 0)"
    and "copy_values (State f (h1 @ [Live (replicate (unat n) None)])) this other
           = Inr (State f (h1 @ [Live (elems s other)]))"
proof -
  show "new_array h1 (unat n) None
           = Inr (h1 @ [Live (replicate (unat n) None)], Ptr (Suc (length (heap s))) 0)"
    using valid_size [OF assms(2)] by (simp add: new_array_result n_def h1_def)
  have keep: "h1 ! b = heap s ! b" if "values_m (objs s other) = Ptr (Suc b) 0" for b
  proof -
    from assms(2) that have "b < length (heap s)"
      by (cases rule: valid_cases) auto
    moreover have "block (values_m (objs s this)) \<noteq> Suc b"
      using assms(4) that by (auto simp: exclusive_def)
    ultimately show ?thesis
      by (simp add: h1_def released_nth)
  qed
  have "copy_values (State f (h1 @ [Live (replicate (unat n) None)])) this other
      = Inr (State f (h1 @ [Live (elems (State (objs s) (heap s)) other)]))"
    using assms(2,3) keep
    by (intro copy_values_fresh) (auto simp: f_def h1_def n_def)
  then show "copy_values (State f (h1 @ [Live (replicate (unat n) None)])) this other
           = Inr (State f (h1 @ [Live (elems s other)]))"
    by simp
qed

lemma copy_assign_distinct:
  assumes "valid s this" "valid s other" "this \<noteq> other" "exclusive s this other"
  shows "copy_assign s this other
       = Inr (State ((objs s)(this := \<lparr>size_m = size_m (objs s other),
                                        values_m = Ptr (Suc (length (heap s))) 0\<rparr>))
                    (released (heap s) (values_m (objs s this)) @ [Live (elems s other)]))"
  using assign_copy_steps [OF assms]
  by (simp add: copy_assign_def field_updates delete_array_valid [OF assms(1)])

lemma copy_assign_self:
  assumes "valid s this"
  shows "copy_assign s this this
       = Inr (State ((objs s)(this := \<lparr>size_m = size_m (objs s this),
                                        values_m = Ptr (Suc (length (heap s))) 0\<rparr>))
                    (released (heap s) (values_m (objs s this))
                       @ [Live (replicate (unat (size_m (objs s this))) None)]))"
proof -
  let ?n = "size_m (objs s this)"
  let ?L = "length (heap s)"
  let ?h1 = "released (heap s) (values_m (objs s this))"
  have na: "new_array ?h1 (unat ?n) None
      = Inr (?h1 @ [Live (replicate (unat ?n) None)], Ptr (Suc ?L) 0)"
    using valid_size [OF assms(1)] by (simp add: new_array_result)
  let ?s2 = "State ((objs s)(this := \<lparr>size_m = ?n, values_m = Ptr (Suc ?L) 0\<rparr>))
                   (?h1 @ [Live (replicate (unat ?n) None)])"
  have step: "copy_assign s this this = copy_values ?s2 this this"
    by (simp add: copy_assign_def field_updates delete_array_valid [OF assms(1)] na)
  have "copy_values ?s2 this this = Inr ?s2"
    by (intro copy_values_self [where b = ?L and cs = "replicate (unat ?n) None"])
       (auto simp: nth_append)
  with step show ?thesis by simp
qed

lemma valid_after_release:
  assumes "valid (State g h) b" "exclusive (State g h) a b" "f b = g b"
  shows "valid (State f (released h (values_m (g a)) @ bs)) b"
  using assms(1)
proof (cases rule: valid_cases)
  case null
  with assms show ?thesis by (simp add: valid_def)
next
  case (owner c cs)
  then have "released h (values_m (g a)) ! c = Live cs"
    using assms(2) by (auto simp: exclusive_def released_nth)
  with owner assms(3) valid_size [OF assms(1)] show ?thesis
    by (simp add: valid_def nth_append)
qed

lemma elems_after_release:
  assumes "valid (State g h) b" "exclusive (State g h) a b" "f b = g b"
  shows "elems (State f (released h (values_m (g a)) @ bs)) b = elems (State g h) b"
  using assms(1)
proof (cases rule: valid_cases)
  case null
  with assms show ?thesis by (simp add: elems_def)
next
  case (owner c cs)
  then have "released h (values_m (g a)) ! c = Live cs"
    using assms(2) by (auto simp: exclusive_def released_nth)
  with owner assms(3) show ?thesis
    by (simp add: elems_def nth_append)
qed

lemma DynamicArray_list_result:
  assumes "length l \<le> PTRDIFF_MAX"
  shows "DynamicArray_list s this l
       = Inr (State ((objs s)(this := \<lparr>size_m = of_nat (length l),
                                        values_m = Ptr (Suc (length (heap s))) 0\<rparr>))
                    (heap s @ [Live (map Some l)]))"
proof -
  have "length l < 2 ^ 64"
    using assms by (simp add: PTRDIFF_MAX_def)
  then have n: "unat (of_nat (length l) :: 64 word) = length l"
    by (simp add: unat_of_nat)
  let ?h = "heap s @ [Live (replicate (length l) (Some 0))]"
  have "copy_list ?h l (Ptr (Suc (length (heap s))) (int 0))
      = Inr (?h[length (heap s) := Live (take 0 (replicate (length l) (Some 0)) @ map Some l
               @ drop (0 + length l) (replicate (length l) (Some 0)))])"
    by (intro copy_list_block) (auto simp: nth_append)
  then have "copy_list ?h l (Ptr (Suc (length (heap s))) 0) = Inr (heap s @ [Live (map Some l)])"
    by simp
  then show ?thesis
    using assms by (simp add: DynamicArray_list_def DynamicArray_size_result n set_heap_def)
qed

lemma DynamicArray_fill_result:
  assumes "unat n \<le> PTRDIFF_MAX"
  shows "DynamicArray_fill s this n v
       = Inr (State ((objs s)(this := \<lparr>size_m = n, values_m = Ptr (Suc (length (heap s))) 0\<rparr>))
                    (heap s @ [Live (replicate (unat n) (Some v))]))"
proof -
  let ?h = "heap s @ [Live (replicate (unat n) (Some 0))]"
  have "fill_loop ?h (Ptr (Suc (length (heap s))) (int 0)) (unat n) v
      = Inr (?h[length (heap s) := Live (take 0 (replicate (unat n) (Some 0))
               @ replicate (unat n) (Some v) @ drop (0 + unat n) (replicate (unat n) (Some 0)))])"
    by (intro fill_loop_block) (auto simp: nth_append)
  then have "fill_loop ?h (Ptr (Suc (length (heap s))) 0) (unat n) v
      = Inr (heap s @ [Live (replicate (unat n) (Some v))])"
    by simp
  then show ?thesis
    using assms
    by (simp add: DynamicArray_fill_def DynamicArray_size_result std_fill_count set_heap_def)
qed

lemma DynamicArray_dtor_valid:
  assumes "valid s a"
  shows "DynamicArray_dtor s a = Inr (State (objs s) (released (heap s) (values_m (objs s a))))"
  using delete_array_valid [OF assms]
  by (simp add: DynamicArray_dtor_def set_heap_def)

lemma DynamicArray_dtor_dangling:
  assumes "values_m (objs s a) = Ptr (Suc b) 0" "b < length (heap s)" "heap s ! b = Freed"
  shows "DynamicArray_dtor s a = Inl (undefined double_free)"
  using assms by (simp add: DynamicArray_dtor_def delete_array_freed)

lemma DynamicArray_move_result:
  assumes "valid s other" "this \<noteq> other"
  shows "DynamicArray_move s this other
       = Inr (State ((objs s)(this := \<lparr>size_m = size_m (objs s other),
                                        values_m = Ptr (Suc (length (heap s))) 0\<rparr>,
                              other := \<lparr>size_m = 0, values_m = nullptr\<rparr>))
                    (released (heap s @ [Live (elems s other)]) (values_m (objs s other))))"
proof -
  let ?n = "size_m (objs s other)"
  let ?f = "(objs s)(this := \<lparr>size_m = ?n, values_m = Ptr (Suc (length (heap s))) 0\<rparr>)"
  let ?h = "heap s @ [Live (elems s other)]"
  have c: "DynamicArray_size s this ?n
      = Inr (State ?f (heap s @ [Live (replicate (unat ?n) (Some 0))]))"
    using assms(1) by (intro DynamicArray_size_result valid_size)
  have "copy_values (State ?f (heap s @ [Live (replicate (unat ?n) (Some 0))])) this other
      = Inr (State ?f (heap s @ [Live (elems (State (objs s) (heap s)) other)]))"
    using assms by (intro copy_values_fresh) auto
  then have cv: "copy_values (State ?f (heap s @ [Live (replicate (unat ?n) (Some 0))])) this other
      = Inr (State ?f ?h)"
    by simp
  let ?g = "?f(other := \<lparr>size_m = 0, values_m = values_m (objs s other)\<rparr>)"
  have "valid (State ?f ?h) other"
    using valid_heap_append [of "objs s" "heap s" other ?f] assms by simp
  then have "delete_array (heap (State ?f ?h)) (values_m (objs (State ?f ?h) other))
      = Inr (released (heap (State ?f ?h)) (values_m (objs (State ?f ?h) other)))"
    by (rule delete_array_valid)
  then have del: "delete_array ?h (values_m (objs s other)) = Inr (released ?h (values_m (objs s other)))"
    using assms(2) by simp
  show ?thesis
    unfolding DynamicArray_move_def c
    using assms(2) by (simp add: cv del field_updates)
qed

lemma move_assign_distinct:
  assumes "valid s this" "valid s other" "this \<noteq> other" "exclusive s this other"
  shows "move_assign s this other
       = Inr (State ((objs s)(this := \<lparr>size_m = size_m (objs s other),
                                        values_m = Ptr (Suc (length (heap s))) 0\<rparr>,
                              other := \<lparr>size_m = 0, values_m = values_m (objs s other)\<rparr>))
                    (released (released (heap s) (values_m (objs s this)) @ [Live (elems s other)])
                       (values_m (objs s other))))"
proof -
  let ?f = "(objs s)(this := \<lparr>size_m = size_m (objs s other),
                               values_m = Ptr (Suc (length (heap s))) 0\<rparr>)"
  let ?h = "released (heap s) (values_m (objs s this)) @ [Live (elems s other)]"
  note steps = assign_copy_steps [OF assms]
  have "valid (State ?f ?h) other"
    using valid_after_release [of "objs s" "heap s" other this ?f] assms(2-4) by simp
  then have "delete_array (heap (State ?f ?h)) (values_m (objs (State ?f ?h) other))
      = Inr (released (heap (State ?f ?h)) (values_m (objs (State ?f ?h) other)))"
    by (rule delete_array_valid)
  then have del: "delete_array ?h (values_m (objs s other)) = Inr (released ?h (values_m (objs s other)))"
    using assms(3) by simp
  show ?thesis
    using assms(3)
    by (simp add: move_assign_def delete_scalar_def field_updates
          delete_array_valid [OF assms(1)] steps del)
qed

text \<open>
  The constructor either fails because the array would be too large, or establishes
  the invariant.
\<close>

lemma constructor_establishes_invariant:
  "(case DynamicArray_size s this n of
      Inl e \<Rightarrow> e = bad_array_new_length \<and> PTRDIFF_MAX < unat n
    | Inr s' \<Rightarrow> valid s' this \<and> size_m (objs s' this) = n
               \<and> elems s' this = replicate (unat n) (Some 0))"
proof (cases "unat n \<le> PTRDIFF_MAX")
  case True
  then show ?thesis
    by (simp add: DynamicArray_size_result valid_fresh_block elems_fresh_block)
next
  case False
  then show ?thesis
    by (simp add: DynamicArray_size_too_large)
qed

text \<open>
  The move constructor empties its source: size zero and a null pointer, with the
  elements in the new container.
\<close>

lemma move_constructor_empties_source:
  assumes "valid s other" "this \<noteq> other"
  shows "\<exists>s'. DynamicArray_move s this other = Inr s'
           \<and> size_m (objs s' other) = 0 \<and> values_m (objs s' other) = nullptr
           \<and> valid s' other
           \<and> size_m (objs s' this) = size_m (objs s other)"
  using assms
  by (simp add: DynamicArray_move_result valid_def PTRDIFF_MAX_def)

text \<open>
  Copy assignment with a destination that need not satisfy the invariant: what matters is
  whether its pointer can be passed to \<^verbatim>\<open>delete[]\<close>.
\<close>

lemma delete_array_releasable:
  "releasable h p \<Longrightarrow> delete_array h p = Inr (released h p)"
  by (cases p; cases "block p")
     (auto simp: releasable_def delete_array_def released_def nullptr_def
           split: option.splits block.splits if_splits)

lemma delete_array_not_releasable:
  "\<not> releasable h p \<Longrightarrow> \<exists>u. delete_array h p = Inl (undefined u)"
  by (auto simp: releasable_def delete_array_def split: option.splits block.splits)

lemma valid_releasable: "valid s a \<Longrightarrow> releasable (heap s) (values_m (objs s a))"
  by (erule valid_cases) (simp_all add: releasable_def)

lemma stale_not_releasable: "stale s a \<Longrightarrow> \<not> releasable (heap s) (values_m (objs s a))"
  by (simp add: stale_def releasable_def)

lemma stale_delete_array:
  "stale s a \<Longrightarrow> delete_array (heap s) (values_m (objs s a)) = Inl (undefined double_free)"
  by (simp add: stale_def delete_array_def)

lemma stale_elems: "stale s a \<Longrightarrow> elems s a = []"
  by (simp add: stale_def elems_def)

lemma copy_values_empty:
  assumes "size_m (objs s other) = 0"
  shows "copy_values s this other = Inr s"
  using assms by (simp add: copy_values_def std_copy_count set_heap_def)

lemma copy_assign_fails_with_delete:
  assumes "delete_array (heap s) (values_m (objs s this)) = Inl e"
  shows "copy_assign s this other = Inl e"
  using assms by (simp add: copy_assign_def field_updates)

lemma source_size:
  assumes "valid s other \<or> stale s other"
  shows "unat (size_m (objs s other)) \<le> PTRDIFF_MAX"
  using assms by (auto simp: valid_size stale_def)

lemma copy_assign_result:
  assumes "valid s other \<or> stale s other" "this \<noteq> other" "exclusive s this other"
    and "releasable (heap s) (values_m (objs s this))"
  shows "copy_assign s this other
       = Inr (State ((objs s)(this := \<lparr>size_m = size_m (objs s other),
                                        values_m = Ptr (Suc (length (heap s))) 0\<rparr>))
                    (released (heap s) (values_m (objs s this)) @ [Live (elems s other)]))"
proof -
  let ?n = "size_m (objs s other)"
  let ?h1 = "released (heap s) (values_m (objs s this))"
  let ?f = "(objs s)(this := \<lparr>size_m = ?n, values_m = Ptr (Suc (length (heap s))) 0\<rparr>)"
  have del: "delete_array (heap s) (values_m (objs s this)) = Inr ?h1"
    using assms(4) by (rule delete_array_releasable)
  have na: "new_array ?h1 (unat ?n) None
      = Inr (?h1 @ [Live (replicate (unat ?n) None)], Ptr (Suc (length (heap s))) 0)"
    using source_size [OF assms(1)] by (simp add: new_array_result)
  have step: "copy_assign s this other
      = copy_values (State ?f (?h1 @ [Live (replicate (unat ?n) None)])) this other"
    by (simp add: copy_assign_def field_updates del na)
  have "copy_values (State ?f (?h1 @ [Live (replicate (unat ?n) None)])) this other
      = Inr (State ?f (?h1 @ [Live (elems s other)]))"
  proof (cases "valid s other")
    case True
    have keep: "?h1 ! b = heap s ! b" if "values_m (objs s other) = Ptr (Suc b) 0" for b
    proof -
      from True that have "b < length (heap s)"
        by (cases rule: valid_cases) auto
      moreover have "block (values_m (objs s this)) \<noteq> Suc b"
        using assms(3) that by (auto simp: exclusive_def)
      ultimately show ?thesis
        by (simp add: released_nth)
    qed
    have "copy_values (State ?f (?h1 @ [Live (replicate (unat ?n) None)])) this other
        = Inr (State ?f (?h1 @ [Live (elems (State (objs s) (heap s)) other)]))"
      using True assms(2) keep by (intro copy_values_fresh) auto
    then show ?thesis by simp
  next
    case False
    with assms(1) have st: "stale s other" by simp
    then have z: "?n = 0" by (simp add: stale_def)
    have "copy_values (State ?f (?h1 @ [Live (replicate (unat ?n) None)])) this other
        = Inr (State ?f (?h1 @ [Live (replicate (unat ?n) None)]))"
      using z assms(2) by (intro copy_values_empty) simp
    then show ?thesis
      using z stale_elems [OF st] by simp
  qed
  with step show ?thesis by simp
qed

lemma released_block_freed:
  "p \<noteq> nullptr \<Longrightarrow> releasable h p \<Longrightarrow> lookup_block (released h p @ bs) (block p) = Some Freed"
  by (cases p; cases "block p")
     (auto simp: releasable_def nullptr_def nth_append split: option.splits block.splits if_splits)

subsection \<open>The example states\<close>

lemma and_then_Inr_right [simp]: "and_then m Inr = m"
  by (cases m) simp_all

lemma run_append: "run s (xs @ ys) = and_then (run s xs) (\<lambda>s'. run s' ys)"
  by (induction xs arbitrary: s) (auto simp: and_then_def split: sum.splits)

lemma two_arrays_fields:
  "objs two_arrays 0 = \<lparr>size_m = 3, values_m = Ptr (Suc 0) 0\<rparr>"
  "objs two_arrays (Suc 0) = \<lparr>size_m = 2, values_m = Ptr (Suc (Suc 0)) 0\<rparr>"
  "heap two_arrays = [Live [Some 1, Some 2, Some 3], Live [Some 0, Some 0]]"
  by (simp_all add: two_arrays_def numeral_2_eq_2)

lemma small_sizes:
  "unat (2 :: 64 word) = Suc (Suc 0)" "unat (3 :: 64 word) = Suc (Suc (Suc 0))"
  "unat (2 :: 64 word) \<le> PTRDIFF_MAX" "unat (3 :: 64 word) \<le> PTRDIFF_MAX"
  "length [1, 2, 3 :: 32 word] \<le> PTRDIFF_MAX"
  by (simp_all add: PTRDIFF_MAX_def)

lemma two_arrays_constructed:
  "run init_state [ConstructList 0 [1, 2, 3 :: 32 word], Construct 1 2] = Inr two_arrays"
proof -
  have "run init_state [ConstructList 0 [1, 2, 3 :: 32 word], Construct 1 2]
      = DynamicArray_size (State ((\<lambda>_. \<lparr>size_m = 0, values_m = nullptr\<rparr>)
                                    (0 := \<lparr>size_m = 3, values_m = Ptr 1 0\<rparr>))
                                 [Live [Some 1, Some 2, Some 3]]) 1 2"
    by (simp add: DynamicArray_list_result [OF small_sizes(5)] init_state_def)
  also have "\<dots> = Inr two_arrays"
    unfolding DynamicArray_size_result [OF small_sizes(3)] small_sizes(1)
    by (simp add: two_arrays_def numeral_2_eq_2)
  finally show ?thesis .
qed

lemma two_arrays_valid: "valid two_arrays 0" "valid two_arrays (Suc 0)"
  "exclusive two_arrays (Suc 0) 0" "exclusive two_arrays 0 (Suc 0)"
  by (simp_all add: valid_def exclusive_def two_arrays_fields PTRDIFF_MAX_def)

lemma two_arrays_elems:
  "elems two_arrays 0 = [Some 1, Some 2, Some 3]" "elems two_arrays (Suc 0) = [Some 0, Some 0]"
  by (simp_all add: elems_def two_arrays_fields)

lemma move_assign_two_arrays:
  "move_assign two_arrays (Suc 0) 0
     = Inr (State ((objs two_arrays)
                     (Suc 0 := \<lparr>size_m = 3, values_m = Ptr (Suc (Suc (Suc 0))) 0\<rparr>,
                      0 := \<lparr>size_m = 0, values_m = Ptr (Suc 0) 0\<rparr>))
                  [Freed, Freed, Live [Some 1, Some 2, Some 3]])"
proof -
  have one: "Suc 0 \<noteq> 0" by simp
  show ?thesis
    unfolding move_assign_distinct [OF two_arrays_valid(2) two_arrays_valid(1) one two_arrays_valid(3)]
    by (simp add: two_arrays_fields two_arrays_elems)
qed

lemma copy_assign_then_destroy_clean:
  "\<exists>s. run init_state [ConstructList 0 [1, 2, 3 :: 32 word], Construct 1 2, CopyAssign 1 0, Destroy 1, Destroy 0]
        = Inr s \<and> heap s = [Freed, Freed, Freed]"
proof -
  have one: "Suc 0 \<noteq> 0" by simp
  note r = copy_assign_distinct [OF two_arrays_valid(2) two_arrays_valid(1) one two_arrays_valid(3)]
  have "run init_state ([ConstructList 0 [1, 2, 3 :: 32 word], Construct 1 2] @ [CopyAssign 1 0, Destroy 1, Destroy 0])
      = and_then (run init_state [ConstructList 0 [1, 2, 3 :: 32 word], Construct 1 2])
          (\<lambda>s. run s [CopyAssign 1 0, Destroy 1, Destroy 0])"
    by (rule run_append)
  also have "\<dots> = run two_arrays [CopyAssign 1 0, Destroy 1, Destroy 0]"
    by (simp only: two_arrays_constructed and_then_Inr)
  finally have "run init_state [ConstructList 0 [1, 2, 3 :: 32 word], Construct 1 2, CopyAssign 1 0, Destroy 1, Destroy 0]
      = run two_arrays [CopyAssign 1 0, Destroy 1, Destroy 0]"
    by simp
  then show ?thesis
    unfolding One_nat_def run.simps exec.simps r and_then_Inr
    by (simp add: two_arrays_fields two_arrays_elems DynamicArray_dtor_def delete_array_live set_heap_def)
qed

lemma moved_arrays_reached: "move_assign two_arrays 1 0 = Inr moved_arrays"
  unfolding One_nat_def move_assign_two_arrays moved_arrays_def ..

lemma moved_arrays_states: "stale moved_arrays 0" "valid moved_arrays (Suc 0)"
  "exclusive moved_arrays 0 (Suc 0)"
  by (simp_all add: moved_arrays_def stale_def valid_def exclusive_def nullptr_def PTRDIFF_MAX_def)

lemma move_then_copy_assign_double_free:
  "run init_state [ConstructList 0 [1, 2, 3 :: 32 word], Construct 1 2, MoveAssign 1 0, CopyAssign 0 1]
     = Inl (undefined double_free)"
proof -
  have "run init_state ([ConstructList 0 [1, 2, 3 :: 32 word], Construct 1 2] @ [MoveAssign 1 0, CopyAssign 0 1])
      = and_then (run init_state [ConstructList 0 [1, 2, 3 :: 32 word], Construct 1 2])
          (\<lambda>s. run s [MoveAssign 1 0, CopyAssign 0 1])"
    by (rule run_append)
  also have "\<dots> = run two_arrays [MoveAssign 1 0, CopyAssign 0 1]"
    by (simp only: two_arrays_constructed and_then_Inr)
  also have "\<dots> = copy_assign moved_arrays 0 1"
    by (simp add: moved_arrays_reached [unfolded One_nat_def])
  also have "\<dots> = Inl (undefined double_free)"
    using stale_delete_array [OF moved_arrays_states(1)]
    by (intro copy_assign_fails_with_delete)
  finally show ?thesis by simp
qed

subsection \<open>Iterator steps\<close>

lemma pre_decrement_funpow:
  "(pre_decrement ^^ n) (iterator p) = iterator (ptr_add p (- int n))"
proof (induction n)
  case 0
  show ?case by (cases p) (simp add: ptr_add_def)
next
  case (Suc n)
  then show ?case by (simp add: pre_decrement_def ptr_add_def)
qed

lemma pre_increment_funpow:
  "(pre_increment ^^ n) (iterator p) = iterator (ptr_add p (int n))"
proof (induction n)
  case 0
  show ?case by (cases p) (simp add: ptr_add_def)
next
  case (Suc n)
  then show ?case by (simp add: pre_increment_def ptr_add_def)
qed

subsection \<open>The claims about the container and its cursor\<close>

text \<open>
  C2. For a container that satisfies the class invariant, with size \<open>n\<close>, and every
  \<^verbatim>\<open>int\<close> index: when the index is in \<open>[0, n)\<close>, \<^verbatim>\<open>operator[]\<close> returns the reference
  \<^verbatim>\<open>values_ + idx\<close>, through which element \<open>idx\<close> is read; when it is outside, negative
  indices included, it raises the range error that carries the index and the size.
  For a container of size 5, index 5 fails and index 4 succeeds.
\<close>

theorem subscript_bounds_checked:
  assumes "valid s this"
  shows "(0 \<le> sint idx \<and> sint idx < uint (size_m (objs s this)) \<longrightarrow>
            subscript s this idx = Inr (ptr_add (values_m (objs s this)) (sint idx))
          \<and> read_elem s this idx = Inr (elems s this ! nat (sint idx)))
       \<and> (\<not> (0 \<le> sint idx \<and> sint idx < uint (size_m (objs s this))) \<longrightarrow>
            subscript s this idx = Inl (range_error idx (size_m (objs s this)))
          \<and> read_elem s this idx = Inl (range_error idx (size_m (objs s this))))
       \<and> (size_m (objs s this) = 5 \<longrightarrow>
            subscript s this 5 = Inl (range_error 5 5)
          \<and> subscript s this 4 = Inr (ptr_add (values_m (objs s this)) 4)
          \<and> read_elem s this 4 = Inr (elems s this ! 4))"
proof (intro conjI impI)
  assume r: "0 \<le> sint idx \<and> sint idx < uint (size_m (objs s this))"
  then show i: "subscript s this idx = Inr (ptr_add (values_m (objs s this)) (sint idx))"
    using assms by (intro subscript_in_range) auto
  show "read_elem s this idx = Inr (elems s this ! nat (sint idx))"
    using assms r by (simp add: read_elem_def i load_in_range)
next
  assume r: "\<not> (0 \<le> sint idx \<and> sint idx < uint (size_m (objs s this)))"
  then show o: "subscript s this idx = Inl (range_error idx (size_m (objs s this)))"
    using assms by (intro subscript_out_of_range) auto
  show "read_elem s this idx = Inl (range_error idx (size_m (objs s this)))"
    by (simp add: read_elem_def o)
next
  assume five: "size_m (objs s this) = 5"
  show "subscript s this 5 = Inl (range_error 5 5)"
    using subscript_out_of_range [OF assms, of 5] five by simp
  show i: "subscript s this 4 = Inr (ptr_add (values_m (objs s this)) 4)"
    using subscript_in_range [OF assms, of 4] five by simp
  show "read_elem s this 4 = Inr (elems s this ! 4)"
    using load_in_range [OF assms, of 4] five by (simp add: read_elem_def i)
qed

theorem subscript_bounds_checked_witness:
  "valid arr5 0
   \<and> subscript arr5 0 4 = Inr (Ptr 1 4)
   \<and> read_elem arr5 0 4 = Inr (Some 0)
   \<and> subscript arr5 0 5 = Inl (range_error 5 5)
   \<and> subscript arr5 0 (- 1) = Inl (range_error (- 1) 5)"
proof -
  have sz: "size_m (objs arr5 0) = 5" and vs: "values_m (objs arr5 0) = Ptr 1 0"
    and el: "elems arr5 0 = replicate 5 (Some 0)"
    by (simp_all add: arr5_def init_state_def elems_def)
  have a: "subscript arr5 0 4 = Inr (Ptr 1 4) \<and> read_elem arr5 0 4 = Inr (Some 0)"
    using subscript_bounds_checked [OF valid_arr5, of 4] by (simp add: sz vs el ptr_add_def)
  have b: "subscript arr5 0 5 = Inl (range_error 5 5)"
    using subscript_bounds_checked [OF valid_arr5, of 5] by (simp add: sz)
  have c: "subscript arr5 0 (- 1) = Inl (range_error (- 1) 5)"
    using subscript_bounds_checked [OF valid_arr5, of "- 1"] by (simp add: sz)
  from a b c valid_arr5 show ?thesis by simp
qed

text \<open>
  C3. The claim that every move leaves the source with size zero and a null pointer
  fails for move assignment. After \<^verbatim>\<open>b = std::move(a)\<close> in the state \<open>two_arrays\<close>, the
  source \<open>a\<close> (object 0) has size zero, but its pointer is still the address of its
  old buffer, which has been released: reading through it is invalid and destroying
  \<open>a\<close> releases the block a second time. (The move constructor does clear the pointer:
  \<open>move_constructor_empties_source\<close>.)
\<close>

theorem move_assign_leaves_dangling_source:
  "\<exists>s'. move_assign two_arrays 1 0 = Inr s'
      \<and> objs s' 1 = \<lparr>size_m = 3, values_m = Ptr 3 0\<rparr>
      \<and> heap s' = [Freed, Freed, Live [Some 1, Some 2, Some 3]]
      \<and> size_m (objs s' 0) = 0
      \<and> values_m (objs s' 0) = Ptr 1 0
      \<and> values_m (objs s' 0) \<noteq> nullptr
      \<and> load (heap s') (values_m (objs s' 0)) = Inl (undefined invalid_access)
      \<and> DynamicArray_dtor s' 0 = Inl (undefined double_free)"
  unfolding One_nat_def move_assign_two_arrays
  by (simp add: DynamicArray_dtor_def delete_array_freed load_def numeral_3_eq_3)

text \<open>
  C4. The claim that every buffer is released exactly once fails on the program
  \<^verbatim>\<open>{ DynamicArray<uint> a{1, 2, 3}; DynamicArray<uint> b(2); b = std::move(a); }\<close>:
  the destructors run at the end of the scope, \<open>b\<close> first, and the destructor of \<open>a\<close>
  releases the buffer that the move assignment has already released.
\<close>

theorem move_assign_then_destroy_double_free:
  "run init_state [ConstructList 0 [1, 2, 3 :: 32 word], Construct 1 2, MoveAssign 1 0, Destroy 1, Destroy 0]
     = Inl (undefined double_free)"
proof -
  have "run init_state ([ConstructList 0 [1, 2, 3 :: 32 word], Construct 1 2] @ [MoveAssign 1 0, Destroy 1, Destroy 0])
      = and_then (run init_state [ConstructList 0 [1, 2, 3 :: 32 word], Construct 1 2])
          (\<lambda>s. run s [MoveAssign 1 0, Destroy 1, Destroy 0])"
    by (rule run_append)
  also have "\<dots> = run two_arrays [MoveAssign 1 0, Destroy 1, Destroy 0]"
    by (simp only: two_arrays_constructed and_then_Inr)
  also have "\<dots> = Inl (undefined double_free)"
    unfolding One_nat_def run.simps exec.simps move_assign_two_arrays and_then_Inr
    by (simp add: DynamicArray_dtor_def delete_array_live delete_array_freed set_heap_def)
  finally show ?thesis by simp
qed

text \<open>
  C5. Copy construction from a container that satisfies the invariant succeeds; the
  copy has the size and the elements of the original, in a buffer of its own, and the
  original is unchanged. Assigning to element \<open>idx\<close> of the copy afterwards changes that
  element of the copy and no element of the original, and the other way round.
\<close>

theorem copy_constructor_deep_copy:
  assumes "valid s other" and "this \<noteq> other"
  shows "\<exists>s'. DynamicArray_copy s this other = Inr s'
     \<and> size_m (objs s' this) = size_m (objs s other)
     \<and> elems s' this = elems s other
     \<and> objs s' other = objs s other
     \<and> elems s' other = elems s other
     \<and> values_m (objs s' this) \<noteq> values_m (objs s' other)
     \<and> valid s' this \<and> valid s' other
     \<and> (\<forall>idx v. 0 \<le> sint idx \<and> sint idx < uint (size_m (objs s other)) \<longrightarrow>
           (\<exists>t. assign_elem s' this idx v = Inr t
              \<and> elems t this = (elems s other)[nat (sint idx) := Some v]
              \<and> elems t other = elems s other)
         \<and> (\<exists>t. assign_elem s' other idx v = Inr t
              \<and> elems t other = (elems s other)[nat (sint idx) := Some v]
              \<and> elems t this = elems s other))"
proof -
  let ?f = "(objs s)(this := \<lparr>size_m = size_m (objs s other),
                               values_m = Ptr (Suc (length (heap s))) 0\<rparr>)"
  let ?s' = "State ?f (heap s @ [Live (elems s other)])"
  have s: "State (objs s) (heap s) = s"
    by simp
  have res: "DynamicArray_copy s this other = Inr ?s'"
    using assms by (rule DynamicArray_copy_result)
  have sz: "size_m (objs ?s' this) = size_m (objs s other)"
    by simp
  have el_this: "elems ?s' this = elems s other"
    by (intro elems_fresh_block) auto
  have ob: "objs ?s' other = objs s other"
    using assms(2) by simp
  have el_other: "elems ?s' other = elems s other"
    using elems_heap_append [of "objs s" "heap s" other ?f] assms by simp
  have v_this: "valid ?s' this"
    using valid_size [OF assms(1)] valid_length_elems [OF assms(1)]
    by (intro valid_fresh_block) auto
  have v_other: "valid ?s' other"
    using valid_heap_append [of "objs s" "heap s" other ?f] assms by simp
  have ne: "values_m (objs ?s' this) \<noteq> values_m (objs ?s' other)"
    using assms(1)
  proof (cases rule: valid_cases)
    case null
    with assms(2) show ?thesis by simp
  next
    case (owner b cs)
    with assms(2) show ?thesis by simp
  qed
  have mut: "(\<exists>t. assign_elem ?s' this idx v = Inr t
              \<and> elems t this = (elems s other)[nat (sint idx) := Some v]
              \<and> elems t other = elems s other)
         \<and> (\<exists>t. assign_elem ?s' other idx v = Inr t
              \<and> elems t other = (elems s other)[nat (sint idx) := Some v]
              \<and> elems t this = elems s other)"
    if r: "0 \<le> sint idx \<and> sint idx < uint (size_m (objs s other))" for idx :: "32 word" and v
  proof
    have "\<exists>t. assign_elem ?s' this idx v = Inr t
           \<and> elems t this = (elems ?s' this)[nat (sint idx) := Some v]
           \<and> elems t other = elems ?s' other"
      using v_this v_other r ne by (intro assign_elem_effect) (simp_all add: sz)
    then show "\<exists>t. assign_elem ?s' this idx v = Inr t
              \<and> elems t this = (elems s other)[nat (sint idx) := Some v]
              \<and> elems t other = elems s other"
      by (simp only: el_this el_other)
  next
    have "\<exists>t. assign_elem ?s' other idx v = Inr t
           \<and> elems t other = (elems ?s' other)[nat (sint idx) := Some v]
           \<and> elems t this = elems ?s' this"
      using v_this v_other r ne [symmetric] assms(2) by (intro assign_elem_effect) auto
    then show "\<exists>t. assign_elem ?s' other idx v = Inr t
              \<and> elems t other = (elems s other)[nat (sint idx) := Some v]
              \<and> elems t this = elems s other"
      by (simp only: el_this el_other)
  qed
  show ?thesis
    using res sz el_this ob el_other ne v_this v_other mut by blast
qed

theorem copy_constructor_deep_copy_witness:
  "valid two_arrays 0
   \<and> (\<exists>s'. DynamicArray_copy two_arrays 2 0 = Inr s'
         \<and> elems s' 2 = [Some 1, Some 2, Some 3]
         \<and> (\<exists>t. assign_elem s' 2 1 7 = Inr t
               \<and> elems t 2 = [Some 1, Some 7, Some 3]
               \<and> elems t 0 = [Some 1, Some 2, Some 3])
         \<and> (\<exists>t. assign_elem s' 0 1 7 = Inr t
               \<and> elems t 0 = [Some 1, Some 7, Some 3]
               \<and> elems t 2 = [Some 1, Some 2, Some 3]))"
proof -
  have two: "(2::nat) \<noteq> 0" by simp
  from copy_constructor_deep_copy [OF two_arrays_valid(1) two]
  obtain s' where s': "DynamicArray_copy two_arrays 2 0 = Inr s'"
    "elems s' 2 = elems two_arrays 0"
    "\<forall>idx v. 0 \<le> sint idx \<and> sint idx < uint (size_m (objs two_arrays 0)) \<longrightarrow>
           (\<exists>t. assign_elem s' 2 idx v = Inr t
              \<and> elems t 2 = (elems two_arrays 0)[nat (sint idx) := Some v]
              \<and> elems t 0 = elems two_arrays 0)
         \<and> (\<exists>t. assign_elem s' 0 idx v = Inr t
              \<and> elems t 0 = (elems two_arrays 0)[nat (sint idx) := Some v]
              \<and> elems t 2 = elems two_arrays 0)"
    by blast
  have "0 \<le> sint (1 :: 32 word) \<and> sint (1 :: 32 word) < uint (size_m (objs two_arrays 0))"
    by (simp add: two_arrays_fields)
  with s'(3) have
    "(\<exists>t. assign_elem s' 2 1 7 = Inr t
              \<and> elems t 2 = (elems two_arrays 0)[nat (sint (1 :: 32 word)) := Some 7]
              \<and> elems t 0 = elems two_arrays 0)
         \<and> (\<exists>t. assign_elem s' 0 1 7 = Inr t
              \<and> elems t 0 = (elems two_arrays 0)[nat (sint (1 :: 32 word)) := Some 7]
              \<and> elems t 2 = elems two_arrays 0)"
    by blast
  then have "(\<exists>t. assign_elem s' 2 1 7 = Inr t
               \<and> elems t 2 = [Some 1, Some 7, Some 3]
               \<and> elems t 0 = [Some 1, Some 2, Some 3])
         \<and> (\<exists>t. assign_elem s' 0 1 7 = Inr t
               \<and> elems t 0 = [Some 1, Some 7, Some 3]
               \<and> elems t 2 = [Some 1, Some 2, Some 3])"
    by (simp add: two_arrays_elems)
  with s'(1,2) two_arrays_valid(1) show ?thesis
    by (auto simp: two_arrays_elems)
qed

text \<open>
  C6. For the cursors of a container of size \<open>N\<close>: \<^verbatim>\<open>end - begin\<close> is \<open>N\<close>;
  \<^verbatim>\<open>(begin + k)[0]\<close> is \<^verbatim>\<open>*(begin + k)\<close>, and for \<open>k\<close> in \<open>[0, N)\<close> both are element
  \<open>k\<close>; decrementing \<^verbatim>\<open>end\<close> \<open>N\<close> times gives \<^verbatim>\<open>begin\<close> (and incrementing \<^verbatim>\<open>begin\<close>
  \<open>N\<close> times gives \<^verbatim>\<open>end\<close>); the difference of two cursors over the buffer is the
  signed distance of their positions.
\<close>

theorem cursor_arithmetic:
  "iterator_difference (DynamicArray_end s this) (DynamicArray_begin s this)
     = Inr (uint (size_m (objs s this)))
   \<and> iterator_subscript (heap s) (iterator_plus (DynamicArray_begin s this) k) 0
     = iterator_deref (heap s) (iterator_plus (DynamicArray_begin s this) k)
   \<and> (valid s this \<and> 0 \<le> k \<and> k < uint (size_m (objs s this)) \<longrightarrow>
        iterator_deref (heap s) (iterator_plus (DynamicArray_begin s this) k)
          = Inr (elems s this ! nat k))
   \<and> (pre_decrement ^^ unat (size_m (objs s this))) (DynamicArray_end s this)
     = DynamicArray_begin s this
   \<and> (pre_increment ^^ unat (size_m (objs s this))) (DynamicArray_begin s this)
     = DynamicArray_end s this
   \<and> iterator_difference (iterator_plus (DynamicArray_begin s this) i)
                          (iterator_plus (DynamicArray_begin s this) j) = Inr (i - j)
   \<and> iterator_difference (iterator_minus (DynamicArray_end s this) i)
                          (iterator_plus (DynamicArray_begin s this) j)
     = Inr (uint (size_m (objs s this)) - i - j)"
proof (intro conjI impI)
  show "iterator_subscript (heap s) (iterator_plus (DynamicArray_begin s this) k) 0
     = iterator_deref (heap s) (iterator_plus (DynamicArray_begin s this) k)"
    by (simp add: iterator_subscript_def iterator_deref_def ptr_add_def)
next
  assume "valid s this \<and> 0 \<le> k \<and> k < uint (size_m (objs s this))"
  then show "iterator_deref (heap s) (iterator_plus (DynamicArray_begin s this) k)
          = Inr (elems s this ! nat k)"
    by (simp add: iterator_deref_def iterator_plus_def DynamicArray_begin_def load_in_range)
next
  show "(pre_decrement ^^ unat (size_m (objs s this))) (DynamicArray_end s this)
     = DynamicArray_begin s this"
    by (cases "values_m (objs s this)")
       (simp add: DynamicArray_end_def DynamicArray_begin_def pre_decrement_funpow ptr_add_def)
next
  show "(pre_increment ^^ unat (size_m (objs s this))) (DynamicArray_begin s this)
     = DynamicArray_end s this"
    by (simp add: DynamicArray_end_def DynamicArray_begin_def pre_increment_funpow)
qed (simp_all add: iterator_difference_def DynamicArray_end_def DynamicArray_begin_def
       iterator_plus_def iterator_minus_def ptr_add_def ptr_diff_def)

theorem cursor_arithmetic_witness:
  "valid two_arrays 0
   \<and> iterator_difference (DynamicArray_end two_arrays 0) (DynamicArray_begin two_arrays 0) = Inr 3
   \<and> iterator_deref (heap two_arrays) (iterator_plus (DynamicArray_begin two_arrays 0) 1)
       = Inr (Some 2)
   \<and> iterator_subscript (heap two_arrays) (iterator_plus (DynamicArray_begin two_arrays 0) 1) 0
       = Inr (Some 2)
   \<and> (pre_decrement ^^ 3) (DynamicArray_end two_arrays 0) = DynamicArray_begin two_arrays 0"
proof -
  note t = cursor_arithmetic [of two_arrays 0 1]
  have r: "valid two_arrays 0 \<and> (0::int) \<le> 1 \<and> 1 < uint (size_m (objs two_arrays 0))"
    using two_arrays_valid(1) by (simp add: two_arrays_fields)
  have d: "iterator_deref (heap two_arrays) (iterator_plus (DynamicArray_begin two_arrays 0) 1)
       = Inr (elems two_arrays 0 ! nat 1)"
    using t r by blast
  have "iterator_difference (DynamicArray_end two_arrays 0) (DynamicArray_begin two_arrays 0)
      = Inr (uint (size_m (objs two_arrays 0)))"
    and "iterator_subscript (heap two_arrays) (iterator_plus (DynamicArray_begin two_arrays 0) 1) 0
      = iterator_deref (heap two_arrays) (iterator_plus (DynamicArray_begin two_arrays 0) 1)"
    and "(pre_decrement ^^ unat (size_m (objs two_arrays 0))) (DynamicArray_end two_arrays 0)
      = DynamicArray_begin two_arrays 0"
    using t by blast+
  with d two_arrays_valid(1) show ?thesis
    by (simp add: two_arrays_fields two_arrays_elems)
qed

text \<open>
  C10. Copy assignment releases the destination's buffer before it copies. Let the
  source satisfy the invariant, or be in the state that move assignment leaves behind.

  \<^item> Between two distinct containers that do not share a buffer, with a destination whose
    pointer can be released (null, or the start of a live block), the assignment is a
    deep copy: the heap afterwards is the old heap with the destination's old block
    released, followed by one new block holding the elements of the source; the
    destination owns that new block and has the size and elements of the source; the
    source is unchanged.
  \<^item> With a destination whose pointer cannot be released the assignment is undefined
    behaviour; for a destination that was the source of a move assignment it is a
    double free.
  \<^item> Self-assignment \<^verbatim>\<open>a = a\<close> releases the buffer of \<open>a\<close> and then copies from the new,
    uninitialised buffer: afterwards every element of \<open>a\<close> is indeterminate, so a
    container that held a value has lost its contents.
\<close>

theorem copy_assign_needs_distinct_objects:
  assumes "valid s other \<or> stale s other"
  shows "(this \<noteq> other \<and> exclusive s this other
          \<and> releasable (heap s) (values_m (objs s this)) \<longrightarrow>
           (\<exists>s'. copy_assign s this other = Inr s'
              \<and> heap s' = released (heap s) (values_m (objs s this)) @ [Live (elems s other)]
              \<and> (values_m (objs s this) \<noteq> nullptr \<longrightarrow>
                   lookup_block (heap s') (block (values_m (objs s this))) = Some Freed)
              \<and> values_m (objs s' this) = Ptr (Suc (length (heap s))) 0
              \<and> size_m (objs s' this) = size_m (objs s other)
              \<and> elems s' this = elems s other
              \<and> objs s' other = objs s other
              \<and> elems s' other = elems s other
              \<and> values_m (objs s' this) \<noteq> values_m (objs s' other)
              \<and> valid s' this
              \<and> (valid s other \<longrightarrow> valid s' other)))
       \<and> (\<not> releasable (heap s) (values_m (objs s this)) \<longrightarrow>
           (\<exists>u. copy_assign s this other = Inl (undefined u)))
       \<and> (stale s this \<longrightarrow> copy_assign s this other = Inl (undefined double_free))
       \<and> (valid s other \<longrightarrow>
           (\<exists>s'. copy_assign s other other = Inr s'
              \<and> heap s' = released (heap s) (values_m (objs s other))
                             @ [Live (replicate (unat (size_m (objs s other))) None)]
              \<and> (values_m (objs s other) \<noteq> nullptr \<longrightarrow>
                   lookup_block (heap s') (block (values_m (objs s other))) = Some Freed)
              \<and> values_m (objs s' other) = Ptr (Suc (length (heap s))) 0
              \<and> size_m (objs s' other) = size_m (objs s other)
              \<and> elems s' other = replicate (unat (size_m (objs s other))) None
              \<and> ((\<exists>x. Some x \<in> set (elems s other)) \<longrightarrow> elems s' other \<noteq> elems s other)))"
proof (intro conjI impI)
  assume d: "this \<noteq> other \<and> exclusive s this other
          \<and> releasable (heap s) (values_m (objs s this))"
  let ?p = "values_m (objs s this)"
  let ?h1 = "released (heap s) ?p"
  let ?f = "(objs s)(this := \<lparr>size_m = size_m (objs s other),
                               values_m = Ptr (Suc (length (heap s))) 0\<rparr>)"
  let ?s' = "State ?f (?h1 @ [Live (elems s other)])"
  have res: "copy_assign s this other = Inr ?s'"
    using assms d by (intro copy_assign_result) auto
  have hp: "heap ?s' = ?h1 @ [Live (elems s other)]"
    by simp
  have fr: "?p \<noteq> nullptr \<longrightarrow> lookup_block (heap ?s') (block ?p) = Some Freed"
    using d by (simp add: released_block_freed)
  have pt: "values_m (objs ?s' this) = Ptr (Suc (length (heap s))) 0"
    by simp
  have sz: "size_m (objs ?s' this) = size_m (objs s other)"
    by simp
  have el: "elems ?s' this = elems s other"
    by (intro elems_fresh_block) auto
  have ob: "objs ?s' other = objs s other"
    using d by simp
  have len: "length (elems s other) = unat (size_m (objs s other))"
    using assms by (auto simp: valid_length_elems stale_elems stale_def)
  have vt: "valid ?s' this"
    using source_size [OF assms] len by (intro valid_fresh_block) auto
  have eo: "elems ?s' other = elems s other"
  proof (cases "valid s other")
    case True
    then show ?thesis
      using elems_after_release [of "objs s" "heap s" other this ?f] d by simp
  next
    case False
    with assms have st: "stale s other" by simp
    then obtain b where b: "values_m (objs s other) = Ptr (Suc b) 0" "b < length (heap s)"
      "heap s ! b = Freed"
      by (cases "values_m (objs s other)"; cases "block (values_m (objs s other))")
         (auto simp: stale_def nullptr_def split: if_splits)
    then have "?h1 ! b = Freed"
      by (simp add: released_nth)
    with b d show ?thesis
      using stale_elems [OF st] by (simp add: elems_def nth_append)
  qed
  have vo: "valid s other \<longrightarrow> valid ?s' other"
    using valid_after_release [of "objs s" "heap s" other this ?f] d by simp
  have ne: "values_m (objs ?s' this) \<noteq> values_m (objs ?s' other)"
  proof (cases "valid s other")
    case True
    then show ?thesis
    proof (cases rule: valid_cases)
      case null
      with d show ?thesis by simp
    next
      case (owner b cs)
      with d show ?thesis by simp
    qed
  next
    case False
    with assms have "stale s other" by simp
    then obtain b where "values_m (objs s other) = Ptr (Suc b) 0" "b < length (heap s)"
      by (cases "values_m (objs s other)"; cases "block (values_m (objs s other))")
         (auto simp: stale_def nullptr_def split: if_splits)
    with d show ?thesis by simp
  qed
  show "\<exists>s'. copy_assign s this other = Inr s'
              \<and> heap s' = released (heap s) (values_m (objs s this)) @ [Live (elems s other)]
              \<and> (values_m (objs s this) \<noteq> nullptr \<longrightarrow>
                   lookup_block (heap s') (block (values_m (objs s this))) = Some Freed)
              \<and> values_m (objs s' this) = Ptr (Suc (length (heap s))) 0
              \<and> size_m (objs s' this) = size_m (objs s other)
              \<and> elems s' this = elems s other
              \<and> objs s' other = objs s other
              \<and> elems s' other = elems s other
              \<and> values_m (objs s' this) \<noteq> values_m (objs s' other)
              \<and> valid s' this
              \<and> (valid s other \<longrightarrow> valid s' other)"
    using res hp fr pt sz el ob eo ne vt vo by blast
next
  assume "\<not> releasable (heap s) (values_m (objs s this))"
  then obtain u where "delete_array (heap s) (values_m (objs s this)) = Inl (undefined u)"
    using delete_array_not_releasable by blast
  then have "copy_assign s this other = Inl (undefined u)"
    by (rule copy_assign_fails_with_delete)
  then show "\<exists>u. copy_assign s this other = Inl (undefined u)" ..
next
  assume "stale s this"
  then have "delete_array (heap s) (values_m (objs s this)) = Inl (undefined double_free)"
    by (rule stale_delete_array)
  then show "copy_assign s this other = Inl (undefined double_free)"
    by (rule copy_assign_fails_with_delete)
next
  assume v: "valid s other"
  let ?n = "size_m (objs s other)"
  let ?p = "values_m (objs s other)"
  let ?s' = "State ((objs s)(other := \<lparr>size_m = ?n, values_m = Ptr (Suc (length (heap s))) 0\<rparr>))
                (released (heap s) ?p @ [Live (replicate (unat ?n) None)])"
  have res: "copy_assign s other other = Inr ?s'"
    using v by (rule copy_assign_self)
  have hp: "heap ?s' = released (heap s) ?p @ [Live (replicate (unat ?n) None)]"
    by simp
  have fr: "?p \<noteq> nullptr \<longrightarrow> lookup_block (heap ?s') (block ?p) = Some Freed"
    using valid_releasable [OF v] by (simp add: released_block_freed)
  have pt: "values_m (objs ?s' other) = Ptr (Suc (length (heap s))) 0"
    by simp
  have sz: "size_m (objs ?s' other) = ?n"
    by simp
  have el: "elems ?s' other = replicate (unat ?n) None"
    by (intro elems_fresh_block) auto
  have lost: "elems ?s' other \<noteq> elems s other" if "\<exists>x. Some x \<in> set (elems s other)"
  proof
    assume "elems ?s' other = elems s other"
    with el have "elems s other = replicate (unat ?n) None"
      by simp
    then have "set (elems s other) \<subseteq> {None}"
      by (metis set_replicate_conv_if empty_subsetI subset_refl)
    with that show False by auto
  qed
  show "\<exists>s'. copy_assign s other other = Inr s'
              \<and> heap s' = released (heap s) (values_m (objs s other))
                             @ [Live (replicate (unat (size_m (objs s other))) None)]
              \<and> (values_m (objs s other) \<noteq> nullptr \<longrightarrow>
                   lookup_block (heap s') (block (values_m (objs s other))) = Some Freed)
              \<and> values_m (objs s' other) = Ptr (Suc (length (heap s))) 0
              \<and> size_m (objs s' other) = size_m (objs s other)
              \<and> elems s' other = replicate (unat (size_m (objs s other))) None
              \<and> ((\<exists>x. Some x \<in> set (elems s other)) \<longrightarrow> elems s' other \<noteq> elems s other)"
    using res hp fr pt sz el lost by blast
qed


theorem copy_assign_needs_distinct_objects_witness:
  "valid two_arrays 0 \<and> (1::nat) \<noteq> 0 \<and> exclusive two_arrays 1 0
   \<and> releasable (heap two_arrays) (values_m (objs two_arrays 1))
   \<and> (\<exists>s'. copy_assign two_arrays 1 0 = Inr s'
         \<and> heap s' = [Live [Some 1, Some 2, Some 3], Freed, Live [Some 1, Some 2, Some 3]]
         \<and> elems s' 1 = [Some 1, Some 2, Some 3]
         \<and> elems s' 0 = [Some 1, Some 2, Some 3]
         \<and> values_m (objs s' 1) \<noteq> values_m (objs s' 0))
   \<and> (\<exists>s'. copy_assign two_arrays 0 0 = Inr s'
         \<and> heap s' = [Freed, Live [Some 0, Some 0], Live [None, None, None]]
         \<and> elems s' 0 = [None, None, None]
         \<and> elems s' 0 \<noteq> elems two_arrays 0)
   \<and> move_assign two_arrays 1 0 = Inr moved_arrays
   \<and> valid moved_arrays 1 \<and> stale moved_arrays 0
   \<and> copy_assign moved_arrays 0 1 = Inl (undefined double_free)"
proof -
  have v0: "valid two_arrays 0 \<or> stale two_arrays 0"
    using two_arrays_valid(1) by simp
  have rl: "releasable (heap two_arrays) (values_m (objs two_arrays (Suc 0)))"
    using two_arrays_valid(2) by (rule valid_releasable)
  note t = copy_assign_needs_distinct_objects [OF v0, of "Suc 0"]
  have "\<exists>s'. copy_assign two_arrays (Suc 0) 0 = Inr s'
         \<and> heap s' = released (heap two_arrays) (values_m (objs two_arrays (Suc 0)))
                        @ [Live (elems two_arrays 0)]
         \<and> elems s' (Suc 0) = elems two_arrays 0
         \<and> elems s' 0 = elems two_arrays 0
         \<and> values_m (objs s' (Suc 0)) \<noteq> values_m (objs s' 0)"
    using t two_arrays_valid(3) rl by blast
  then have a: "\<exists>s'. copy_assign two_arrays (Suc 0) 0 = Inr s'
         \<and> heap s' = [Live [Some 1, Some 2, Some 3], Freed, Live [Some 1, Some 2, Some 3]]
         \<and> elems s' (Suc 0) = [Some 1, Some 2, Some 3]
         \<and> elems s' 0 = [Some 1, Some 2, Some 3]
         \<and> values_m (objs s' (Suc 0)) \<noteq> values_m (objs s' 0)"
    by (simp add: two_arrays_elems two_arrays_fields)
  have "\<exists>x. Some x \<in> set (elems two_arrays 0)"
    by (auto simp: two_arrays_elems)
  with t two_arrays_valid(1) have "\<exists>s'. copy_assign two_arrays 0 0 = Inr s'
         \<and> heap s' = released (heap two_arrays) (values_m (objs two_arrays 0))
                        @ [Live (replicate (unat (size_m (objs two_arrays 0))) None)]
         \<and> elems s' 0 = replicate (unat (size_m (objs two_arrays 0))) None
         \<and> elems s' 0 \<noteq> elems two_arrays 0"
    by blast
  then have b: "\<exists>s'. copy_assign two_arrays 0 0 = Inr s'
         \<and> heap s' = [Freed, Live [Some 0, Some 0], Live [None, None, None]]
         \<and> elems s' 0 = [None, None, None]
         \<and> elems s' 0 \<noteq> elems two_arrays 0"
    unfolding two_arrays_fields DynamicArray.simps small_sizes by simp
  have v1: "valid moved_arrays (Suc 0) \<or> stale moved_arrays (Suc 0)"
    using moved_arrays_states(2) by simp
  have c: "copy_assign moved_arrays 0 (Suc 0) = Inl (undefined double_free)"
    using copy_assign_needs_distinct_objects [OF v1, of 0] moved_arrays_states(1) by blast
  from a b c rl two_arrays_valid moved_arrays_states moved_arrays_reached show ?thesis
    by simp
qed

end
